theory Spec2Isabelle
  imports Main
begin

section \<open>The byte-pair-encoding tokenizer of \<^verbatim>\<open>BPETokenizer.py\<close>\<close>

text \<open>
  Symbols are Python integers (\<^typ>\<open>int\<close>); a token stream is a list of them. The
  only exception the tokenizer core can raise is the \<^verbatim>\<open>ValueError\<close> of the builtin
  \<^verbatim>\<open>max\<close> on an empty sequence.
\<close>

datatype py_error = ValueError

subsection \<open>\<^verbatim>\<open>TokenPair\<close>\<close>

record TokenPair =
  first_token :: int
  second_token :: int
  frequency :: int

text \<open>\<^verbatim>\<open>TokenPair._key\<close>\<close>

definition key :: "TokenPair \<Rightarrow> int \<times> int" where
  "key tp = (first_token tp, second_token tp)"

text \<open>\<^verbatim>\<open>TokenPair.__lt__\<close>: pairs are ordered by frequency alone.\<close>

definition TokenPair_lt :: "TokenPair \<Rightarrow> TokenPair \<Rightarrow> bool" where
  "TokenPair_lt self other = (frequency self < frequency other)"

subsection \<open>The pair table \<^verbatim>\<open>tcounts\<close>\<close>

text \<open>
  \<^verbatim>\<open>tcounts\<close> is a Python dict, whose iteration order is the order in which its keys
  were first inserted. The order decides which of several maximal pairs \<^verbatim>\<open>max\<close>
  returns, so the dict is an association list in insertion order.
\<close>

type_synonym pair_dict = "((int \<times> int) \<times> TokenPair) list"

text \<open>\<^verbatim>\<open>d[k] = v\<close>: an existing key keeps its position, a new key goes last.\<close>

fun dict_set :: "('k \<times> 'v) list \<Rightarrow> 'k \<Rightarrow> 'v \<Rightarrow> ('k \<times> 'v) list" where
  "dict_set [] k v = [(k, v)]"
| "dict_set ((k', v') # d) k v =
     (if k' = k then (k, v) # d else (k', v') # dict_set d k v)"

text \<open>
  The body of the loop of \<^verbatim>\<open>Tokenizer.count\<close>. A \<^verbatim>\<open>TokenPair\<close> object is always
  truthy (the dataclass defines neither \<^verbatim>\<open>__bool__\<close> nor \<^verbatim>\<open>__len__\<close>), so the
  test \<^verbatim>\<open>if self.tcounts.get(key, None)\<close> is the test for the key being present.
\<close>

definition count_step :: "pair_dict \<Rightarrow> int \<Rightarrow> int \<Rightarrow> pair_dict" where
  "count_step tc token nxt =
     (let tp = \<lparr>first_token = token, second_token = nxt, frequency = 1\<rparr>
      in case map_of tc (key tp) of
           Some seen \<Rightarrow> dict_set tc (key tp) (seen\<lparr>frequency := frequency seen + 1\<rparr>)
         | None \<Rightarrow> dict_set tc (key tp) tp)"

text \<open>
  \<^verbatim>\<open>Tokenizer.count\<close>: \<^verbatim>\<open>for i, token in enumerate(tokens[:-1])\<close> visits the indices
  \<open>0 .. len(tokens) - 2\<close> and pairs \<^verbatim>\<open>tokens[i]\<close> with \<^verbatim>\<open>tokens[i+1]\<close>.
\<close>

definition count :: "int list \<Rightarrow> pair_dict" where
  "count tokens =
     fold (\<lambda>i tc. count_step tc (tokens ! i) (tokens ! (i + 1)))
       [0..<length tokens - 1] []"

text \<open>
  The builtin \<^verbatim>\<open>max\<close> over TokenPair objects: it keeps the first item and replaces
  it only when \<^verbatim>\<open>item > maxitem\<close>, which for a class that defines \<^verbatim>\<open>__lt__\<close> only
  is the reflected call \<^verbatim>\<open>maxitem.__lt__(item)\<close>.
\<close>

fun max_loop :: "TokenPair \<Rightarrow> TokenPair list \<Rightarrow> TokenPair" where
  "max_loop maxitem [] = maxitem"
| "max_loop maxitem (item # items) =
     max_loop (if TokenPair_lt maxitem item then item else maxitem) items"

text \<open>\<^verbatim>\<open>Tokenizer.get_most_common\<close>: \<^verbatim>\<open>max(self.tcounts.values())\<close>.\<close>

definition get_most_common :: "pair_dict \<Rightarrow> py_error + TokenPair" where
  "get_most_common tc =
     (case map snd tc of
        [] \<Rightarrow> Inl ValueError
      | item # items \<Rightarrow> Inr (max_loop item items))"

text \<open>The builtin \<^verbatim>\<open>max\<close> over a list of integers.\<close>

definition py_max :: "int list \<Rightarrow> py_error + int" where
  "py_max xs = (case xs of [] \<Rightarrow> Inl ValueError | y # ys \<Rightarrow> Inr (fold max ys y))"

subsection \<open>The tokenizer state\<close>

record Tokenizer =
  name :: string
  path_prefix :: "string option"
  encoding_vocab_size :: int
  original_tokens :: "int list"
  encoded_tokens :: "int list"
  mint_token :: int
  tcounts :: pair_dict
  decoding_map :: "int \<rightharpoonup> TokenPair"
  encoding_map :: "int \<times> int \<rightharpoonup> int"

text \<open>
  \<^verbatim>\<open>Tokenizer.__init__\<close> with \<^verbatim>\<open>raw_tokens=True\<close>: the tokens are taken as they are
  (a \<^verbatim>\<open>bytes\<close> object or a list of integers).
\<close>

definition Tokenizer_init ::
  "int list \<Rightarrow> int \<Rightarrow> string \<Rightarrow> string option \<Rightarrow> Tokenizer" where
  "Tokenizer_init tokens vocab nm pp =
     \<lparr>name = nm, path_prefix = pp, encoding_vocab_size = vocab,
      original_tokens = tokens, encoded_tokens = tokens, mint_token = 256,
      tcounts = count tokens, decoding_map = Map.empty, encoding_map = Map.empty\<rparr>"

subsection \<open>One training step: \<^verbatim>\<open>Tokenizer.swap_top\<close>\<close>

text \<open>
  The \<^verbatim>\<open>while idx < len(self.encoded_tokens) - 1\<close> loop, with its two variables
  \<^verbatim>\<open>new_encoding\<close> and \<^verbatim>\<open>idx\<close>.
\<close>

function swap_loop ::
  "int \<Rightarrow> int \<Rightarrow> int \<Rightarrow> int list \<Rightarrow> int list \<Rightarrow> nat \<Rightarrow> int list \<times> nat" where
  "swap_loop a b mint toks new_encoding idx =
     (if idx + 1 < length toks then
        (if a = toks ! idx \<and> b = toks ! (idx + 1)
         then swap_loop a b mint toks (new_encoding @ [mint]) (idx + 2)
         else swap_loop a b mint toks (new_encoding @ [toks ! idx]) (idx + 1))
      else (new_encoding, idx))"
  by pat_completeness auto
termination
  by (relation "measure (\<lambda>(a, b, mint, toks, new_encoding, idx). length toks - idx)") auto

declare swap_loop.simps [simp del]

text \<open>The rewritten stream: the loop, then the trailing symbol when one is left.\<close>

definition swap_pass :: "int \<Rightarrow> int \<Rightarrow> int \<Rightarrow> int list \<Rightarrow> int list" where
  "swap_pass a b mint toks =
     (case swap_loop a b mint toks [] 0 of
        (new_encoding, idx) \<Rightarrow>
          if idx < length toks then new_encoding @ [toks ! idx] else new_encoding)"

text \<open>
  \<^verbatim>\<open>swap_top\<close> returns \<^verbatim>\<open>True\<close> when training is finished. The final
  \<^verbatim>\<open>max(self.encoded_tokens)\<close> raises on an empty stream.
\<close>

definition swap_top :: "Tokenizer \<Rightarrow> py_error + (bool \<times> Tokenizer)" where
  "swap_top s =
     (case get_most_common (tcounts s) of
        Inl e \<Rightarrow> Inl e
      | Inr top_tp \<Rightarrow>
          if frequency top_tp = 1 then Inr (True, s)
          else
            let new_encoding =
                  swap_pass (first_token top_tp) (second_token top_tp) (mint_token s)
                    (encoded_tokens s);
                s' = s\<lparr>encoded_tokens := new_encoding,
                       decoding_map := (decoding_map s)(mint_token s \<mapsto> top_tp),
                       encoding_map := (encoding_map s)(key top_tp \<mapsto> mint_token s),
                       mint_token := mint_token s + 1,
                       tcounts := count new_encoding\<rparr>
            in case py_max new_encoding of
                 Inl e \<Rightarrow> Inl e
               | Inr m \<Rightarrow> Inr (m + 1 = encoding_vocab_size s', s'))"

subsection \<open>\<^verbatim>\<open>Tokenizer.train\<close>\<close>

text \<open>
  \<^verbatim>\<open>train\<close> calls \<^verbatim>\<open>swap_top\<close> until it answers \<^verbatim>\<open>True\<close>. The result is the whole
  final state (the Python returns its \<^verbatim>\<open>encoded_tokens\<close> and leaves the two maps in
  the object).
\<close>

function train :: "Tokenizer \<Rightarrow> py_error + Tokenizer" where
  "train s =
     (case swap_top s of
        Inl e \<Rightarrow> Inl e
      | Inr (finshed_encoding, s') \<Rightarrow> if finshed_encoding then Inr s' else train s')"
  by pat_completeness auto

subsection \<open>\<^verbatim>\<open>Tokenizer.decode\<close>\<close>

text \<open>
  The \<^verbatim>\<open>for token in encoded_tokens\<close> loop of one pass, with its variables
  \<^verbatim>\<open>decoded_tokens\<close> and \<^verbatim>\<open>decoded\<close>. The looked-up TokenPair is always truthy.
\<close>

fun decode_loop ::
  "(int \<rightharpoonup> TokenPair) \<Rightarrow> int list \<Rightarrow> int list \<Rightarrow> bool \<Rightarrow> int list \<times> bool" where
  "decode_loop dm [] dec_tokens decoded = (dec_tokens, decoded)"
| "decode_loop dm (token # rest) dec_tokens decoded =
     (case dm token of
        Some tp \<Rightarrow>
          decode_loop dm rest (dec_tokens @ [first_token tp, second_token tp]) False
      | None \<Rightarrow> decode_loop dm rest (dec_tokens @ [token]) decoded)"

text \<open>
  \<^verbatim>\<open>decode\<close> with \<^verbatim>\<open>raw_tokens=True\<close>. The \<^verbatim>\<open>while not decoded\<close> loop has no bound
  of its own, so not returning is the value \<open>None\<close>.
\<close>

partial_function (option) decode :: "(int \<rightharpoonup> TokenPair) \<Rightarrow> int list \<Rightarrow> int list option" where
  "decode dm enc_tokens =
     (case decode_loop dm enc_tokens [] True of
        (dec_tokens, decoded) \<Rightarrow>
          if decoded then Some dec_tokens else decode dm dec_tokens)"

subsection \<open>\<^verbatim>\<open>Tokenizer.encode\<close>\<close>

text \<open>
  The inner \<^verbatim>\<open>while idx < len(decoded_tokens) - 1\<close> loop. The test
  \<^verbatim>\<open>if encoded_token\<close> is Python truthiness of the looked-up integer: a missing key
  (\<^verbatim>\<open>None\<close>) and the integer 0 are both false.
\<close>

definition truthy :: "int option \<Rightarrow> bool" where
  "truthy v = (case v of None \<Rightarrow> False | Some n \<Rightarrow> n \<noteq> 0)"

function encode_loop ::
  "(int \<times> int \<rightharpoonup> int) \<Rightarrow> int list \<Rightarrow> int list \<Rightarrow> nat \<Rightarrow> bool \<Rightarrow> int list \<times> nat \<times> bool" where
  "encode_loop em toks enc_tokens idx encoded =
     (if idx + 1 < length toks then
        (let encoded_token = em (toks ! idx, toks ! (idx + 1))
         in if truthy encoded_token
            then encode_loop em toks (enc_tokens @ [the encoded_token]) (idx + 2) False
            else encode_loop em toks (enc_tokens @ [toks ! idx]) (idx + 1) encoded)
      else (enc_tokens, idx, encoded))"
  by pat_completeness auto
termination
  by (relation "measure (\<lambda>(em, toks, enc_tokens, idx, encoded). length toks - idx)") auto

declare encode_loop.simps [simp del]

text \<open>One full pass: the loop, then the trailing symbol when one is left.\<close>

definition encode_pass :: "(int \<times> int \<rightharpoonup> int) \<Rightarrow> int list \<Rightarrow> int list \<times> bool" where
  "encode_pass em toks =
     (case encode_loop em toks [] 0 True of
        (enc_tokens, idx, encoded) \<Rightarrow>
          (if idx < length toks then enc_tokens @ [toks ! idx] else enc_tokens,
           encoded))"

text \<open>\<^verbatim>\<open>encode\<close> with \<^verbatim>\<open>raw_tokens=True\<close>: passes are repeated until one merges nothing.\<close>

function encode :: "(int \<times> int \<rightharpoonup> int) \<Rightarrow> int list \<Rightarrow> int list" where
  "encode em dec_tokens =
     (case encode_pass em dec_tokens of
        (enc_tokens, encoded) \<Rightarrow>
          if encoded then enc_tokens else encode em enc_tokens)"
  by pat_completeness auto

section \<open>List-level views of the loops\<close>

text \<open>The adjacent pairs of a stream, in stream order (overlapping windows, stride 1).\<close>

definition adjacent :: "'a list \<Rightarrow> ('a \<times> 'a) list" where
  "adjacent xs = zip xs (tl xs)"

text \<open>
  The rewriting of a training step in the words of the specification: one greedy
  left-to-right pass that replaces an occurrence of the pair and resumes behind it.
\<close>

fun merge_pairs :: "int \<Rightarrow> int \<Rightarrow> int \<Rightarrow> int list \<Rightarrow> int list" where
  "merge_pairs a b m (x # y # zs) =
     (if x = a \<and> y = b then m # merge_pairs a b m zs else x # merge_pairs a b m (y # zs))"
| "merge_pairs a b m xs = xs"

lemma adjacent_simps [simp]:
  "adjacent [] = []" "adjacent [x] = []" "adjacent (x # y # zs) = (x, y) # adjacent (y # zs)"
  by (simp_all add: adjacent_def)

lemma swap_loop_merge_pairs:
  "idx \<le> length toks \<Longrightarrow>
   (case swap_loop a b m toks new idx of
      (new', idx') \<Rightarrow> if idx' < length toks then new' @ [toks ! idx'] else new')
   = new @ merge_pairs a b m (drop idx toks)"
proof (induction a b m toks new idx rule: swap_loop.induct)
  case (1 a b mint toks new_encoding idx)
  show ?case
  proof (cases "idx + 1 < length toks")
    case True
    then have d: "drop idx toks = toks ! idx # toks ! (idx + 1) # drop (idx + 2) toks"
      by (simp add: Cons_nth_drop_Suc)
    show ?thesis
    proof (cases "a = toks ! idx \<and> b = toks ! (idx + 1)")
      case hit: True
      with True 1(1) d show ?thesis
        by (subst swap_loop.simps) simp
    next
      case miss: False
      from True have d1: "drop (idx + 1) toks = toks ! (idx + 1) # drop (idx + 2) toks"
        by (simp add: Cons_nth_drop_Suc)
      from True miss 1(2) d d1 show ?thesis
        by (subst swap_loop.simps) auto
    qed
  next
    case False
    show ?thesis
    proof (cases "idx < length toks")
      case True
      with False have "drop idx toks = [toks ! idx]"
        by (metis Cons_nth_drop_Suc Suc_eq_plus1 drop_all linorder_not_less)
      with False True show ?thesis
        by (subst swap_loop.simps) simp
    next
      case False
      with 1(3) show ?thesis
        by (subst swap_loop.simps) simp
    qed
  qed
qed

lemma swap_pass_eq: "swap_pass a b m toks = merge_pairs a b m toks"
  using swap_loop_merge_pairs [of 0 toks a b m "[]"] by (simp add: swap_pass_def)

lemma length_merge_pairs_le: "length (merge_pairs a b m xs) \<le> length xs"
  by (induction a b m xs rule: merge_pairs.induct) auto

lemma length_merge_pairs_less:
  "(a, b) \<in> set (adjacent xs) \<Longrightarrow> length (merge_pairs a b m xs) < length xs"
proof (induction a b m xs rule: merge_pairs.induct)
  case (1 a b m x y zs)
  then show ?case
    using length_merge_pairs_le [of a b m zs] by (auto simp: less_Suc_eq_le)
qed simp_all

section \<open>What the pair table holds\<close>

text \<open>The distinct elements of a list, in the order of their first occurrence.\<close>

fun firsts :: "'a list \<Rightarrow> 'a list" where
  "firsts [] = []"
| "firsts (x # xs) = x # filter (\<lambda>y. y \<noteq> x) (firsts xs)"

text \<open>The number of positions at which a pair stands in the stream.\<close>

definition pair_count :: "int list \<Rightarrow> int \<times> int \<Rightarrow> nat" where
  "pair_count tokens p = count_list (adjacent tokens) p"

text \<open>The position of the first occurrence (the length of the list when there is none).\<close>

definition first_occ :: "'a list \<Rightarrow> 'a \<Rightarrow> nat" where
  "first_occ xs x = length (takeWhile (\<lambda>y. y \<noteq> x) xs)"

text \<open>The dict that counting builds, written out entry by entry.\<close>

definition entry :: "(int \<times> int) list \<Rightarrow> int \<times> int \<Rightarrow> (int \<times> int) \<times> TokenPair" where
  "entry ps k =
     (k, \<lparr>first_token = fst k, second_token = snd k, frequency = int (count_list ps k)\<rparr>)"

definition table :: "(int \<times> int) list \<Rightarrow> pair_dict" where
  "table ps = map (entry ps) (firsts ps)"

lemma set_firsts [simp]: "set (firsts xs) = set xs"
  by (induction xs) auto

lemma distinct_firsts [simp]: "distinct (firsts xs)"
  by (induction xs) auto

lemma firsts_append:
  "firsts (xs @ ys) = firsts xs @ filter (\<lambda>y. y \<notin> set xs) (firsts ys)"
  by (induction xs) (auto simp: conj_commute)

lemma map_of_keyed:
  "map_of (map (\<lambda>k. (k, f k)) ks) p = (if p \<in> set ks then Some (f p) else None)"
  by (induction ks) auto

lemma dict_set_keyed:
  "distinct ks \<Longrightarrow>
   dict_set (map (\<lambda>k. (k, f k)) ks) p v =
     (if p \<in> set ks then map (\<lambda>k. (k, if k = p then v else f k)) ks
      else map (\<lambda>k. (k, f k)) ks @ [(p, v)])"
  by (induction ks) auto

lemma count_step_table: "count_step (table ps) x y = table (ps @ [(x, y)])"
proof -
  let ?f = "\<lambda>k. \<lparr>first_token = fst k, second_token = snd k, frequency = int (count_list ps k)\<rparr>"
  have t: "table ps = map (\<lambda>k. (k, ?f k)) (firsts ps)"
    by (simp add: table_def entry_def)
  show ?thesis
  proof (cases "(x, y) \<in> set ps")
    case True
    then show ?thesis
      unfolding t count_step_def
      by (simp add: map_of_keyed dict_set_keyed key_def table_def entry_def firsts_append)
  next
    case False
    then show ?thesis
      unfolding t count_step_def
      by (auto simp: map_of_keyed dict_set_keyed key_def table_def entry_def firsts_append)
  qed
qed

lemma fold_count_step:
  "fold (\<lambda>p tc. count_step tc (fst p) (snd p)) qs (table ps) = table (ps @ qs)"
proof (induction qs arbitrary: ps)
  case Nil
  then show ?case by simp
next
  case (Cons q qs)
  then show ?case
    using count_step_table [of ps "fst q" "snd q"] by simp
qed

lemma adjacent_nth:
  "map (\<lambda>i. (xs ! i, xs ! (i + 1))) [0..<length xs - 1] = adjacent xs"
  by (rule nth_equalityI) (auto simp: adjacent_def nth_tl)

lemma count_eq_table: "count tokens = table (adjacent tokens)"
proof -
  have "count tokens =
        fold (\<lambda>p tc. count_step tc (fst p) (snd p))
          (map (\<lambda>i. (tokens ! i, tokens ! (i + 1))) [0..<length tokens - 1]) []"
    by (simp add: count_def fold_map comp_def)
  also have "\<dots> = fold (\<lambda>p tc. count_step tc (fst p) (snd p)) (adjacent tokens) (table [])"
    using adjacent_nth [of tokens] by (simp add: table_def)
  finally show ?thesis
    by (simp add: fold_count_step)
qed

lemma max_loop_split:
  "\<exists>pre post. m # xs = pre @ max_loop m xs # post
     \<and> (\<forall>x\<in>set pre. frequency x < frequency (max_loop m xs))
     \<and> (\<forall>x\<in>set post. frequency x \<le> frequency (max_loop m xs))"
proof (induction xs arbitrary: m)
  case Nil
  show ?case by (intro exI [of _ "[]"]) simp
next
  case (Cons x xs)
  define m' where "m' = (if TokenPair_lt m x then x else m)"
  define r where "r = max_loop m' xs"
  have r: "max_loop m (x # xs) = r"
    by (simp add: r_def m'_def)
  have le: "frequency m \<le> frequency m'" "frequency x \<le> frequency m'"
    by (simp_all add: m'_def TokenPair_lt_def)
  from Cons [of m'] obtain pre post where
    s: "m' # xs = pre @ r # post"
    and lo: "\<forall>x\<in>set pre. frequency x < frequency r"
    and hi: "\<forall>x\<in>set post. frequency x \<le> frequency r"
    unfolding r_def by blast
  show ?case
  proof (cases pre)
    case Nil
    with s have eq: "r = m'" "post = xs" by simp_all
    show ?thesis
    proof (cases "TokenPair_lt m x")
      case True
      then have "m # x # xs = [m] @ r # xs" "frequency m < frequency r"
        by (simp_all add: eq m'_def TokenPair_lt_def)
      with hi eq show ?thesis unfolding r by (metis empty_iff list.set(1) set_ConsD)
    next
      case False
      then have "m # x # xs = [] @ r # (x # xs)" "frequency x \<le> frequency r"
        by (simp_all add: eq m'_def TokenPair_lt_def)
      with hi eq show ?thesis unfolding r by (metis empty_iff list.set(1) set_ConsD)
    qed
  next
    case (Cons p pre')
    with s have eq: "p = m'" "xs = pre' @ r # post" by simp_all
    from lo Cons eq have "frequency m' < frequency r" by simp
    with le have "frequency m < frequency r" "frequency x < frequency r" by simp_all
    moreover have "m # x # xs = (m # x # pre') @ r # post"
      by (simp add: eq)
    moreover from lo Cons have "\<forall>x\<in>set pre'. frequency x < frequency r" by simp
    ultimately show ?thesis
      unfolding r using hi by (metis set_ConsD)
  qed
qed

lemma distinct_split_unique:
  assumes d: "distinct (us @ k # vs)" and e: "us @ k # vs = us' @ k # vs'"
  shows "us = us'"
proof -
  from d have k: "k \<notin> set us" by simp
  from d have "distinct (us' @ k # vs')" unfolding e .
  then have k': "k \<notin> set us'" by simp
  have "takeWhile (\<lambda>x. x \<noteq> k) (us @ k # vs) = us"
    using k by (subst takeWhile_append2) auto
  moreover have "takeWhile (\<lambda>x. x \<noteq> k) (us' @ k # vs') = us'"
    using k' by (subst takeWhile_append2) auto
  ultimately show ?thesis
    using e by simp
qed

lemma firsts_split:
  assumes "firsts ps = us @ k # vs"
  shows "\<exists>pre post. ps = pre @ k # post \<and> k \<notin> set pre \<and> set pre = set us"
proof -
  have "set ps = set (us @ k # vs)"
    by (metis assms set_firsts)
  then have "k \<in> set ps" by simp
  then obtain pre post where ps: "ps = pre @ k # post" and k: "k \<notin> set pre"
    by (meson split_list_first)
  have "firsts ps = firsts pre @ k # filter (\<lambda>y. y \<notin> set pre) (filter (\<lambda>y. y \<noteq> k) (firsts post))"
    using k by (simp add: ps firsts_append)
  then have "us @ k # vs = firsts pre @ k # filter (\<lambda>y. y \<notin> set pre) (filter (\<lambda>y. y \<noteq> k) (firsts post))"
    unfolding assms .
  moreover have "distinct (us @ k # vs)"
    by (metis assms distinct_firsts)
  ultimately have "us = firsts pre"
    by (rule distinct_split_unique [rotated])
  with ps k show ?thesis
    by auto
qed

lemma get_most_common_table:
  assumes "ps \<noteq> []"
  shows "\<exists>k us vs. get_most_common (table ps) = Inr (snd (entry ps k))
           \<and> firsts ps = us @ k # vs
           \<and> (\<forall>q\<in>set us. count_list ps q < count_list ps k)
           \<and> (\<forall>q\<in>set vs. count_list ps q \<le> count_list ps k)"
proof -
  let ?g = "\<lambda>k. snd (entry ps k)"
  have fr: "frequency (?g k) = int (count_list ps k)" for k
    by (simp add: entry_def)
  from assms obtain v vals where v: "map ?g (firsts ps) = v # vals"
    by (cases ps) auto
  then have g: "get_most_common (table ps) = Inr (max_loop v vals)"
    by (simp add: get_most_common_def table_def comp_def)
  from max_loop_split [of v vals] obtain pre post where
    s: "v # vals = pre @ max_loop v vals # post"
    and lo: "\<forall>x\<in>set pre. frequency x < frequency (max_loop v vals)"
    and hi: "\<forall>x\<in>set post. frequency x \<le> frequency (max_loop v vals)"
    by blast
  from s v have "map ?g (firsts ps) = pre @ max_loop v vals # post" by simp
  then obtain us k vs where
    f: "firsts ps = us @ k # vs" and pre: "pre = map ?g us"
    and r: "max_loop v vals = ?g k" and post: "post = map ?g vs"
    by (auto simp: map_eq_append_conv map_eq_Cons_conv)
  from lo have "\<forall>q\<in>set us. count_list ps q < count_list ps k"
    unfolding pre r by (simp add: fr)
  moreover from hi have "\<forall>q\<in>set vs. count_list ps q \<le> count_list ps k"
    unfolding post r by (simp add: fr)
  moreover from g r have "get_most_common (table ps) = Inr (?g k)" by simp
  ultimately show ?thesis
    using f by blast
qed

section \<open>Most frequent pair\<close>

lemma adjacent_nonempty:
  assumes "2 \<le> length xs"
  shows "adjacent xs \<noteq> []"
proof (cases xs)
  case Nil
  with assms show ?thesis by simp
next
  case (Cons x ys)
  with assms show ?thesis by (cases ys) auto
qed

lemma first_occ_split:
  "k \<notin> set pre \<Longrightarrow> first_occ (pre @ k # post) k = length pre"
  unfolding first_occ_def by (subst takeWhile_append2) auto

lemma first_occ_later:
  "q \<notin> set pre \<Longrightarrow> q \<noteq> k \<Longrightarrow> length pre < first_occ (pre @ k # post) q"
  unfolding first_occ_def by (subst takeWhile_append2) auto

text \<open>
  Claim C2. On a stream of at least two symbols \<^verbatim>\<open>get_most_common\<close> returns a pair
  that stands in the stream, with its number of occurrences as frequency; no pair
  occurs more often; and every other pair with the same number of occurrences occurs
  for the first time later in the stream (first seen wins).
\<close>

theorem most_common_first_seen:
  assumes "2 \<le> length tokens"
  shows "\<exists>tp. get_most_common (count tokens) = Inr tp
     \<and> key tp \<in> set (adjacent tokens)
     \<and> frequency tp = int (pair_count tokens (key tp))
     \<and> (\<forall>q. pair_count tokens q \<le> pair_count tokens (key tp))
     \<and> (\<forall>q. q \<noteq> key tp \<and> pair_count tokens q = pair_count tokens (key tp) \<longrightarrow>
            first_occ (adjacent tokens) (key tp) < first_occ (adjacent tokens) q)"
proof -
  let ?ps = "adjacent tokens"
  from assms have "?ps \<noteq> []" by (rule adjacent_nonempty)
  from get_most_common_table [OF this] obtain k us vs where
    g: "get_most_common (table ?ps) = Inr (snd (entry ?ps k))"
    and f: "firsts ?ps = us @ k # vs"
    and lo: "\<forall>q\<in>set us. count_list ?ps q < count_list ?ps k"
    and hi: "\<forall>q\<in>set vs. count_list ?ps q \<le> count_list ?ps k"
    by blast
  let ?tp = "snd (entry ?ps k)"
  have kt: "key ?tp = k" and ft: "frequency ?tp = int (count_list ?ps k)"
    by (simp_all add: entry_def key_def)
  have sets: "set ?ps = set (us @ k # vs)"
    by (metis f set_firsts)
  then have mem: "k \<in> set ?ps" by simp
  have mx: "count_list ?ps q \<le> count_list ?ps k" for q
  proof (cases "q \<in> set ?ps")
    case True
    with sets lo hi show ?thesis by (auto simp: less_imp_le)
  next
    case False
    then show ?thesis by simp
  qed
  from firsts_split [OF f] obtain pre post where
    ps: "?ps = pre @ k # post" and k: "k \<notin> set pre" and pre: "set pre = set us"
    by blast
  have tie: "first_occ ?ps k < first_occ ?ps q"
    if "q \<noteq> k" "count_list ?ps q = count_list ?ps k" for q
  proof -
    from that lo pre have "q \<notin> set pre" by auto
    from this that(1) have "length pre < first_occ (pre @ k # post) q"
      by (rule first_occ_later)
    moreover have "first_occ (pre @ k # post) k = length pre"
      using k by (rule first_occ_split)
    ultimately show ?thesis
      unfolding ps by simp
  qed
  have "get_most_common (count tokens) = Inr ?tp"
    using g by (simp add: count_eq_table)
  with mem mx tie show ?thesis
    unfolding pair_count_def by (intro exI [of _ ?tp]) (simp add: kt ft)
qed

lemma upt5: "[0..<5] = [0, 1, 2, 3, 4]"
  by (simp add: upt_rec)

theorem most_common_first_seen_witness:
  "2 \<le> length [1, 2, 3, 1, 2, 3 :: int]
   \<and> get_most_common (count [1, 2, 3, 1, 2, 3]) =
       Inr \<lparr>first_token = 1, second_token = 2, frequency = 2\<rparr>
   \<and> pair_count [1, 2, 3, 1, 2, 3] (2, 3) = pair_count [1, 2, 3, 1, 2, 3] (1, 2)
   \<and> first_occ (adjacent [1, 2, 3, 1, 2, 3 :: int]) (1, 2)
       < first_occ (adjacent [1, 2, 3, 1, 2, 3 :: int]) (2, 3)"
proof -
  let ?ts = "[1, 2, 3, 1, 2, 3 :: int]"
  have h: "2 \<le> length ?ts" by simp
  have c: "get_most_common (count ?ts) =
       Inr \<lparr>first_token = 1, second_token = 2, frequency = 2\<rparr>"
    by (simp add: get_most_common_def count_def count_step_def key_def TokenPair_lt_def upt5)
  have p: "pair_count ?ts (2, 3) = pair_count ?ts (1, 2)"
    by (simp add: pair_count_def)
  from most_common_first_seen [OF h] obtain tp where
    g: "get_most_common (count ?ts) = Inr tp"
    and tie: "\<forall>q. q \<noteq> key tp \<and> pair_count ?ts q = pair_count ?ts (key tp) \<longrightarrow>
            first_occ (adjacent ?ts) (key tp) < first_occ (adjacent ?ts) q"
    by blast
  from g c have "tp = \<lparr>first_token = 1, second_token = 2, frequency = 2\<rparr>"
    by simp
  then have "key tp = (1, 2)"
    by (simp add: key_def)
  with tie [rule_format, of "(2, 3)"] p
  have "first_occ (adjacent ?ts) (1, 2) < first_occ (adjacent ?ts) (2, 3)"
    by simp
  with h c p show ?thesis by blast
qed

section \<open>Training terminates\<close>

lemma most_common_in_stream:
  assumes "get_most_common (count toks) = Inr tp"
  shows "(first_token tp, second_token tp) \<in> set (adjacent toks)"
proof (cases "adjacent toks = []")
  case True
  with assms show ?thesis
    by (simp add: count_eq_table table_def get_most_common_def)
next
  case False
  from get_most_common_table [OF False] assms obtain k us vs where
    "tp = snd (entry (adjacent toks) k)" "firsts (adjacent toks) = us @ k # vs"
    by (auto simp: count_eq_table)
  moreover from this(2) have "set (adjacent toks) = set (us @ k # vs)"
    by (metis set_firsts)
  ultimately show ?thesis
    by (simp add: entry_def)
qed

text \<open>
  A step that merges shortens the stream when the pair table is the one of the stream
  (as it is after \<^verbatim>\<open>__init__\<close> and after every step); otherwise it cannot lengthen
  it, and brings the table in line.
\<close>

definition train_measure :: "Tokenizer \<Rightarrow> nat" where
  "train_measure s =
     2 * length (encoded_tokens s) + (if tcounts s = count (encoded_tokens s) then 0 else 1)"

lemma swap_top_decreases:
  assumes "swap_top s = Inr (False, s')"
  shows "train_measure s' < train_measure s"
proof -
  from assms obtain tp where
    g: "get_most_common (tcounts s) = Inr tp" and f: "frequency tp \<noteq> 1"
    by (auto simp: swap_top_def split: sum.splits if_splits)
  let ?new = "merge_pairs (first_token tp) (second_token tp) (mint_token s) (encoded_tokens s)"
  from assms g f have s': "encoded_tokens s' = ?new" "tcounts s' = count ?new"
    by (auto simp: swap_top_def swap_pass_eq Let_def split: sum.splits)
  show ?thesis
  proof (cases "tcounts s = count (encoded_tokens s)")
    case True
    with g have "(first_token tp, second_token tp) \<in> set (adjacent (encoded_tokens s))"
      by (simp add: most_common_in_stream)
    then have "length ?new < length (encoded_tokens s)"
      by (rule length_merge_pairs_less)
    with True s' show ?thesis by (simp add: train_measure_def)
  next
    case False
    have "length ?new \<le> length (encoded_tokens s)"
      by (rule length_merge_pairs_le)
    with False s' show ?thesis by (simp add: train_measure_def)
  qed
qed

termination train
  by (relation "measure train_measure") (auto dest: swap_top_decreases)

declare train.simps [simp del]

section \<open>Encoding\<close>

text \<open>One encode pass as a function on lists.\<close>

fun contract :: "(int \<times> int \<rightharpoonup> int) \<Rightarrow> int list \<Rightarrow> int list" where
  "contract em (x # y # zs) =
     (if truthy (em (x, y)) then the (em (x, y)) # contract em zs
      else x # contract em (y # zs))"
| "contract em xs = xs"

lemma encode_loop_contract:
  "idx \<le> length toks \<Longrightarrow>
   (case encode_loop em toks enc idx e of
      (enc', idx', e') \<Rightarrow> (if idx' < length toks then enc' @ [toks ! idx'] else enc', e'))
   = (enc @ contract em (drop idx toks),
      e \<and> (\<forall>p\<in>set (adjacent (drop idx toks)). \<not> truthy (em p)))"
proof (induction em toks enc idx e rule: encode_loop.induct)
  case (1 em toks enc idx e)
  show ?case
  proof (cases "idx + 1 < length toks")
    case True
    then have d: "drop idx toks = toks ! idx # toks ! (idx + 1) # drop (idx + 2) toks"
      by (simp add: Cons_nth_drop_Suc)
    from True have d1: "drop (idx + 1) toks = toks ! (idx + 1) # drop (idx + 2) toks"
      by (simp add: Cons_nth_drop_Suc)
    show ?thesis
    proof (cases "truthy (em (toks ! idx, toks ! (idx + 1)))")
      case hit: True
      with True 1(1) [OF True refl hit] d show ?thesis
        by (subst encode_loop.simps) (simp add: Let_def)
    next
      case miss: False
      with True 1(2) [OF True refl miss] d d1 show ?thesis
        by (subst encode_loop.simps) (auto simp: Let_def)
    qed
  next
    case False
    show ?thesis
    proof (cases "idx < length toks")
      case True
      with False have "drop idx toks = [toks ! idx]"
        by (metis Cons_nth_drop_Suc Suc_eq_plus1 drop_all linorder_not_less)
      with False True show ?thesis
        by (subst encode_loop.simps) simp
    next
      case False
      with 1(3) show ?thesis
        by (subst encode_loop.simps) simp
    qed
  qed
qed

lemma encode_pass_eq:
  "encode_pass em toks = (contract em toks, \<forall>p\<in>set (adjacent toks). \<not> truthy (em p))"
  using encode_loop_contract [of 0 toks em "[]" True]
  by (simp add: encode_pass_def split: prod.splits)

lemma length_contract_le: "length (contract em xs) \<le> length xs"
  by (induction em xs rule: contract.induct) auto

lemma length_contract_less:
  "\<exists>p\<in>set (adjacent xs). truthy (em p) \<Longrightarrow> length (contract em xs) < length xs"
proof (induction em xs rule: contract.induct)
  case (1 em x y zs)
  then show ?case
    using length_contract_le [of em zs] by (auto simp: less_Suc_eq_le)
qed simp_all

lemma contract_id:
  "\<forall>p\<in>set (adjacent xs). \<not> truthy (em p) \<Longrightarrow> contract em xs = xs"
  by (induction em xs rule: contract.induct) auto

termination encode
  by (relation "measure (\<lambda>(em, toks). length toks)")
    (auto simp: encode_pass_eq intro: length_contract_less)

declare encode.simps [simp del]

lemma encode_unfold:
  "encode em xs =
     (if \<forall>p\<in>set (adjacent xs). \<not> truthy (em p) then xs else encode em (contract em xs))"
  by (subst encode.simps) (simp add: encode_pass_eq contract_id)

lemma encode_settled: "\<forall>p\<in>set (adjacent (encode em xs)). \<not> truthy (em p)"
proof (induction em xs rule: encode.induct)
  case (1 em dec_tokens)
  show ?case
  proof (cases "\<forall>p\<in>set (adjacent dec_tokens). \<not> truthy (em p)")
    case True
    then show ?thesis by (subst encode_unfold) simp
  next
    case False
    have "encode em dec_tokens = encode em (contract em dec_tokens)"
      using encode_unfold [where em = em and xs = dec_tokens] by (simp only: False if_False)
    moreover from False have pass: "encode_pass em dec_tokens = (contract em dec_tokens, False)"
      by (simp add: encode_pass_eq)
    ultimately show ?thesis
      using 1 [OF pass [symmetric]] by simp
  qed
qed

lemma adjacent_index:
  "Suc i < length xs \<Longrightarrow> (xs ! i, xs ! Suc i) \<in> set (adjacent xs)"
proof -
  assume "Suc i < length xs"
  then have "i \<in> set [0..<length xs - 1]" by simp
  then have "(xs ! i, xs ! (i + 1)) \<in> (\<lambda>i. (xs ! i, xs ! (i + 1))) ` set [0..<length xs - 1]"
    by (rule imageI)
  then have "(xs ! i, xs ! (i + 1)) \<in> set (map (\<lambda>i. (xs ! i, xs ! (i + 1))) [0..<length xs - 1])"
    by (simp only: set_map)
  then show ?thesis
    by (simp only: adjacent_nth Suc_eq_plus1)
qed

lemma encode_aaa: "encode [(97 :: int, 97 :: int) \<mapsto> (256 :: int)] [97, 97, 97] = [256, 97]"
  by (subst encode_unfold, simp add: truthy_def, subst encode_unfold, simp add: truthy_def)

section \<open>One training step\<close>

lemma merge_pairs_Nil: "merge_pairs a b m xs = [] \<longleftrightarrow> xs = []"
  by (induction a b m xs rule: merge_pairs.induct) auto

lemma merge_pairs_unmerge:
  "m \<notin> set xs \<Longrightarrow>
   concat (map (\<lambda>t. if t = m then [a, b] else [t]) (merge_pairs a b m xs)) = xs"
  by (induction a b m xs rule: merge_pairs.induct) auto

lemma py_max_Inr: "xs \<noteq> [] \<Longrightarrow> \<exists>m. py_max xs = Inr m"
  by (cases xs) (simp_all add: py_max_def)

text \<open>
  Claim C5. When the selected pair has a count above 1, one step rewrites the stream
  by the greedy left-to-right pass \<^const>\<open>merge_pairs\<close> (after a match the scan resumes
  two positions on), records the merge in both maps, and keeps every other symbol in
  its place: putting the pair back for the new symbol gives the old stream.
\<close>

theorem swap_top_rewrites:
  assumes "get_most_common (tcounts s) = Inr tp"
    and "1 < frequency tp"
    and "encoded_tokens s \<noteq> []"
  shows "\<exists>fin s'. swap_top s = Inr (fin, s')
     \<and> encoded_tokens s' =
         merge_pairs (first_token tp) (second_token tp) (mint_token s) (encoded_tokens s)
     \<and> decoding_map s' = (decoding_map s)(mint_token s \<mapsto> tp)
     \<and> encoding_map s' = (encoding_map s)(key tp \<mapsto> mint_token s)
     \<and> (mint_token s \<notin> set (encoded_tokens s) \<longrightarrow>
          concat (map (\<lambda>t. if t = mint_token s then [first_token tp, second_token tp] else [t])
            (encoded_tokens s')) = encoded_tokens s)"
proof -
  let ?new = "merge_pairs (first_token tp) (second_token tp) (mint_token s) (encoded_tokens s)"
  from assms(3) have "?new \<noteq> []" by (simp add: merge_pairs_Nil)
  then obtain m where m: "py_max ?new = Inr m"
    using py_max_Inr by blast
  let ?s' = "s\<lparr>encoded_tokens := ?new,
                decoding_map := (decoding_map s)(mint_token s \<mapsto> tp),
                encoding_map := (encoding_map s)(key tp \<mapsto> mint_token s),
                mint_token := mint_token s + 1,
                tcounts := count ?new\<rparr>"
  from assms(1,2) m have "swap_top s = Inr (m + 1 = encoding_vocab_size s, ?s')"
    by (simp add: swap_top_def swap_pass_eq Let_def)
  moreover have "mint_token s \<notin> set (encoded_tokens s) \<longrightarrow>
      concat (map (\<lambda>t. if t = mint_token s then [first_token tp, second_token tp] else [t])
        (encoded_tokens ?s')) = encoded_tokens s"
    by (simp add: merge_pairs_unmerge)
  ultimately show ?thesis
    by (intro exI [of _ "m + 1 = encoding_vocab_size s"] exI [of _ ?s']) simp
qed

lemma count_aaa:
  "count [97, 97, 97] = [((97, 97), \<lparr>first_token = 97, second_token = 97, frequency = 2\<rparr>)]"
  by (simp add: count_eq_table table_def entry_def)

theorem swap_top_rewrites_witness:
  "get_most_common (tcounts (Tokenizer_init [97, 97, 97] 276 ''tinyshakespeare'' None))
     = Inr \<lparr>first_token = 97, second_token = 97, frequency = 2\<rparr>
   \<and> 1 < frequency \<lparr>first_token = 97, second_token = 97, frequency = 2\<rparr>
   \<and> encoded_tokens (Tokenizer_init [97, 97, 97] 276 ''tinyshakespeare'' None) \<noteq> []
   \<and> (\<exists>fin s'. swap_top (Tokenizer_init [97, 97, 97] 276 ''tinyshakespeare'' None) = Inr (fin, s')
        \<and> encoded_tokens s' = [256, 97]
        \<and> decoding_map s' 256 = Some \<lparr>first_token = 97, second_token = 97, frequency = 2\<rparr>
        \<and> encoding_map s' (97, 97) = Some 256)"
proof -
  let ?s = "Tokenizer_init [97, 97, 97] 276 ''tinyshakespeare'' None"
  let ?tp = "\<lparr>first_token = 97, second_token = 97, frequency = 2\<rparr>"
  have g: "get_most_common (tcounts ?s) = Inr ?tp"
    by (simp add: Tokenizer_init_def count_aaa get_most_common_def)
  have f: "1 < frequency ?tp" by simp
  have n: "encoded_tokens ?s \<noteq> []" by (simp add: Tokenizer_init_def)
  from swap_top_rewrites [OF g f n] obtain fin s' where
    "swap_top ?s = Inr (fin, s')"
    "encoded_tokens s' = merge_pairs 97 97 (mint_token ?s) (encoded_tokens ?s)"
    "decoding_map s' = (decoding_map ?s)(mint_token ?s \<mapsto> ?tp)"
    "encoding_map s' = (encoding_map ?s)(key ?tp \<mapsto> mint_token ?s)"
    by auto
  then have "swap_top ?s = Inr (fin, s') \<and> encoded_tokens s' = [256, 97]
        \<and> decoding_map s' 256 = Some ?tp \<and> encoding_map s' (97, 97) = Some 256"
    by (simp add: Tokenizer_init_def key_def)
  with g f n show ?thesis by blast
qed

section \<open>Decoding\<close>

text \<open>One decode pass as a function on lists: every symbol of the map gives its pair.\<close>

definition expand1 :: "(int \<rightharpoonup> TokenPair) \<Rightarrow> int \<Rightarrow> int list" where
  "expand1 dm t =
     (case dm t of Some tp \<Rightarrow> [first_token tp, second_token tp] | None \<Rightarrow> [t])"

definition decode_pass :: "(int \<rightharpoonup> TokenPair) \<Rightarrow> int list \<Rightarrow> int list" where
  "decode_pass dm xs = concat (map (expand1 dm) xs)"

lemma decode_loop_eq:
  "decode_loop dm xs acc d = (acc @ decode_pass dm xs, d \<and> (\<forall>t\<in>set xs. dm t = None))"
  by (induction xs arbitrary: acc d) (auto simp: decode_pass_def expand1_def split: option.splits)

lemma decode_pass_id: "\<forall>t\<in>set xs. dm t = None \<Longrightarrow> decode_pass dm xs = xs"
  by (induction xs) (auto simp: decode_pass_def expand1_def)

lemma decode_pass_append:
  "decode_pass dm (xs @ ys) = decode_pass dm xs @ decode_pass dm ys"
  by (simp add: decode_pass_def)

lemma decode_unfold:
  "decode dm xs =
     (if \<forall>t\<in>set xs. dm t = None then Some xs else decode dm (decode_pass dm xs))"
  by (subst decode.simps) (simp add: decode_loop_eq decode_pass_id)

section \<open>Short inputs\<close>

lemma adjacent_short:
  assumes "length xs < 2"
  shows "adjacent xs = []"
proof (cases xs)
  case Nil
  then show ?thesis by simp
next
  case (Cons x ys)
  with assms have "ys = []" by simp
  with Cons show ?thesis by simp
qed

lemma count_short: "length tokens < 2 \<Longrightarrow> count tokens = []"
  by (simp add: count_eq_table adjacent_short table_def)

text \<open>
  Claim C3, amended. On an input of fewer than two symbols pair counting gives the
  empty table and training raises \<^verbatim>\<open>ValueError\<close> (the \<^verbatim>\<open>max\<close> of
  \<^verbatim>\<open>get_most_common\<close> over no values) instead of completing as a no-op; an encode
  pass and \<^verbatim>\<open>encode\<close> return the input unchanged; a decode pass and \<^verbatim>\<open>decode\<close> return
  the input unchanged when its symbol is not a key of the decode map.
\<close>

theorem short_input:
  assumes "length tokens < 2"
  shows "count tokens = []
     \<and> train (Tokenizer_init tokens vocab nm pp) = Inl ValueError
     \<and> encode_pass em tokens = (tokens, True)
     \<and> encode em tokens = tokens
     \<and> ((\<forall>t\<in>set tokens. dm t = None) \<longrightarrow>
          decode_loop dm tokens [] True = (tokens, True) \<and> decode dm tokens = Some tokens)"
proof -
  from assms have c: "count tokens = []" by (rule count_short)
  then have "swap_top (Tokenizer_init tokens vocab nm pp) = Inl ValueError"
    by (simp add: swap_top_def Tokenizer_init_def get_most_common_def)
  then have t: "train (Tokenizer_init tokens vocab nm pp) = Inl ValueError"
    by (subst train.simps) simp
  from assms have a: "adjacent tokens = []"
    by (rule adjacent_short)
  then have p: "encode_pass em tokens = (tokens, True)"
    by (simp add: encode_pass_eq contract_id)
  from a have e: "encode em tokens = tokens"
    by (subst encode_unfold) simp
  have "decode_loop dm tokens [] True = (tokens, True) \<and> decode dm tokens = Some tokens"
    if "\<forall>t\<in>set tokens. dm t = None"
    using that by (subst decode_unfold) (simp add: decode_loop_eq decode_pass_id)
  with c t p e show ?thesis by blast
qed

theorem short_input_witness:
  "length [97 :: int] < 2
   \<and> count [97] = []
   \<and> train (Tokenizer_init [97] 276 ''tinyshakespeare'' None) = Inl ValueError
   \<and> encode [(97 :: int, 97 :: int) \<mapsto> (256 :: int)] [97] = [97]
   \<and> decode [256 \<mapsto> \<lparr>first_token = 97, second_token = 97, frequency = 2\<rparr>] [97] = Some [97]"
proof -
  let ?dm = "[256 \<mapsto> \<lparr>first_token = 97, second_token = 97, frequency = 2\<rparr>]"
  let ?em = "[(97 :: int, 97 :: int) \<mapsto> (256 :: int)]"
  have h: "length [97 :: int] < 2" by simp
  have d: "\<forall>t\<in>set [97 :: int]. ?dm t = None" by simp
  note s = short_input [OF h, of 276 "''tinyshakespeare''" None ?em ?dm]
  from s have "count [97] = []" by (rule conjunct1)
  moreover from s have "train (Tokenizer_init [97] 276 ''tinyshakespeare'' None) = Inl ValueError"
    by (elim conjE)
  moreover from s have "encode ?em [97] = [97]"
    by (elim conjE)
  moreover from s d have "decode ?dm [97] = Some [97]"
    by (elim conjE) (simp only:)
  ultimately show ?thesis using h by - (intro conjI; assumption)
qed

text \<open>
  The claim as it stands fails: training on a one-symbol input raises.
\<close>

theorem short_training_counterexample:
  "length [97 :: int] < 2
   \<and> train (Tokenizer_init [97] 276 ''tinyshakespeare'' None) = Inl ValueError"
proof -
  have "swap_top (Tokenizer_init [97] 276 ''tinyshakespeare'' None) = Inl ValueError"
    by (simp add: swap_top_def Tokenizer_init_def get_most_common_def count_def)
  then have "train (Tokenizer_init [97] 276 ''tinyshakespeare'' None) = Inl ValueError"
    by (subst train.simps) simp
  then show ?thesis by simp
qed

section \<open>When training stops\<close>


lemma count_aaaa:
  "count [97, 97, 97, 97] =
     [((97, 97), \<lparr>first_token = 97, second_token = 97, frequency = 3\<rparr>)]"
  by (simp add: count_eq_table table_def entry_def)

lemma count_minted_pair:
  "count [256, 256] = [((256, 256), \<lparr>first_token = 256, second_token = 256, frequency = 1\<rparr>)]"
  by (simp add: count_eq_table table_def entry_def)

lemma swap_top_aaaa:
  "swap_top (Tokenizer_init [97, 97, 97, 97] vocab nm pp) =
     Inr (257 = vocab,
       \<lparr>name = nm, path_prefix = pp, encoding_vocab_size = vocab,
        original_tokens = [97, 97, 97, 97], encoded_tokens = [256, 256], mint_token = 257,
        tcounts = [((256, 256), \<lparr>first_token = 256, second_token = 256, frequency = 1\<rparr>)],
        decoding_map = [256 \<mapsto> \<lparr>first_token = 97, second_token = 97, frequency = 3\<rparr>],
        encoding_map = [(97, 97) \<mapsto> 256]\<rparr>)"
  by (simp add: swap_top_def Tokenizer_init_def count_aaaa get_most_common_def swap_pass_eq
      py_max_def count_minted_pair key_def)


section \<open>Invariants of training\<close>

text \<open>
  The merge table of a state: the minted symbols are exactly \<open>256 ..< mint_token\<close>, and
  every entry of the encode map has its inverse in the decode map.
\<close>

definition table_ok :: "Tokenizer \<Rightarrow> bool" where
  "table_ok s \<longleftrightarrow>
     256 \<le> mint_token s
     \<and> dom (decoding_map s) = {256..<mint_token s}
     \<and> (\<forall>p m. encoding_map s p = Some m \<longrightarrow>
            (\<exists>tp. decoding_map s m = Some tp \<and> key tp = p))"

text \<open>
  The stream of a state: the pair table is the one of the stream, every symbol of the
  stream is below the next symbol to mint, and every minted symbol stands for a pair of
  smaller symbols.
\<close>

definition stream_ok :: "Tokenizer \<Rightarrow> bool" where
  "stream_ok s \<longleftrightarrow>
     tcounts s = count (encoded_tokens s)
     \<and> (\<forall>t\<in>set (encoded_tokens s). t < mint_token s)
     \<and> (\<forall>k tp. decoding_map s k = Some tp \<longrightarrow> first_token tp < k \<and> second_token tp < k)"

lemma table_ok_init: "table_ok (Tokenizer_init tokens vocab nm pp)"
  by (simp add: table_ok_def Tokenizer_init_def)

lemma stream_ok_init:
  "\<forall>t\<in>set tokens. t < 256 \<Longrightarrow> stream_ok (Tokenizer_init tokens vocab nm pp)"
  by (simp add: stream_ok_def Tokenizer_init_def)

text \<open>What a step that merges does to the state.\<close>

lemma swap_top_cases:
  assumes "swap_top s = Inr (fin, s')"
  obtains (saturated) tp where "get_most_common (tcounts s) = Inr tp" "frequency tp = 1"
      "fin" "s' = s"
  | (merged) tp m where "get_most_common (tcounts s) = Inr tp" "frequency tp \<noteq> 1"
      "s' = s\<lparr>encoded_tokens :=
                 merge_pairs (first_token tp) (second_token tp) (mint_token s) (encoded_tokens s),
               decoding_map := (decoding_map s)(mint_token s \<mapsto> tp),
               encoding_map := (encoding_map s)(key tp \<mapsto> mint_token s),
               mint_token := mint_token s + 1,
               tcounts := count (merge_pairs (first_token tp) (second_token tp) (mint_token s)
                 (encoded_tokens s))\<rparr>"
      "py_max (encoded_tokens s') = Inr m" "fin \<longleftrightarrow> m + 1 = encoding_vocab_size s"
proof -
  from assms obtain tp where g: "get_most_common (tcounts s) = Inr tp"
    by (auto simp: swap_top_def split: sum.splits)
  show thesis
  proof (cases "frequency tp = 1")
    case True
    with assms g have "fin" "s' = s" by (simp_all add: swap_top_def)
    with g True show thesis by (rule saturated)
  next
    case False
    let ?new = "merge_pairs (first_token tp) (second_token tp) (mint_token s) (encoded_tokens s)"
    let ?s' = "s\<lparr>encoded_tokens := ?new,
               decoding_map := (decoding_map s)(mint_token s \<mapsto> tp),
               encoding_map := (encoding_map s)(key tp \<mapsto> mint_token s),
               mint_token := mint_token s + 1,
               tcounts := count ?new\<rparr>"
    from assms g False obtain m where m: "py_max ?new = Inr m"
      and r: "fin \<longleftrightarrow> m + 1 = encoding_vocab_size s" "s' = ?s'"
      by (auto simp: swap_top_def swap_pass_eq Let_def split: sum.splits)
    from m r(2) have "py_max (encoded_tokens s') = Inr m" by simp
    with g False r show thesis by (intro merged [of tp m])
  qed
qed

lemma table_ok_swap_top:
  assumes "table_ok s" and "swap_top s = Inr (fin, s')"
  shows "table_ok s'"
  using assms(2)
proof (cases rule: swap_top_cases)
  case (saturated tp)
  with assms(1) show ?thesis by simp
next
  case (merged tp m)
  from assms(1) have mint: "256 \<le> mint_token s"
    and d: "dom (decoding_map s) = {256..<mint_token s}"
    and e: "\<And>p m. encoding_map s p = Some m \<Longrightarrow>
            \<exists>tp. decoding_map s m = Some tp \<and> key tp = p"
    by (auto simp: table_ok_def)
  have fresh: "m' \<noteq> mint_token s" if "encoding_map s p = Some m'" for p m'
  proof -
    from e [OF that] have "m' \<in> dom (decoding_map s)" by auto
    with d show ?thesis by simp
  qed
  have "dom (decoding_map s') = {256..<mint_token s'}"
    using mint d by (auto simp: merged(3))
  moreover have "\<exists>tp'. decoding_map s' m' = Some tp' \<and> key tp' = p"
    if "encoding_map s' p = Some m'" for p m'
  proof (cases "p = key tp")
    case True
    with that show ?thesis by (simp add: merged(3))
  next
    case False
    with that have old: "encoding_map s p = Some m'" by (simp add: merged(3))
    from e [OF old] fresh [OF old] show ?thesis by (simp add: merged(3))
  qed
  moreover have "256 \<le> mint_token s'"
    using mint by (simp add: merged(3))
  ultimately show ?thesis
    unfolding table_ok_def by blast
qed

lemma adjacent_members:
  "(a, b) \<in> set (adjacent xs) \<Longrightarrow> a \<in> set xs \<and> b \<in> set xs"
  by (induction xs rule: induct_list012) auto

lemma set_merge_pairs: "set (merge_pairs a b m xs) \<subseteq> insert m (set xs)"
  by (induction a b m xs rule: merge_pairs.induct) auto

lemma merge_pairs_has_mint:
  "(a, b) \<in> set (adjacent xs) \<Longrightarrow> m \<in> set (merge_pairs a b m xs)"
  by (induction a b m xs rule: merge_pairs.induct) auto

lemma stream_ok_swap_top:
  assumes "stream_ok s" and "swap_top s = Inr (fin, s')"
  shows "stream_ok s'"
  using assms(2)
proof (cases rule: swap_top_cases)
  case (saturated tp)
  with assms(1) show ?thesis by simp
next
  case (merged tp m)
  from assms(1) have c: "tcounts s = count (encoded_tokens s)"
    and lt: "\<And>t. t \<in> set (encoded_tokens s) \<Longrightarrow> t < mint_token s"
    and dec: "\<And>k tp. decoding_map s k = Some tp \<Longrightarrow> first_token tp < k \<and> second_token tp < k"
    by (auto simp: stream_ok_def)
  from merged(1) c have "(first_token tp, second_token tp) \<in> set (adjacent (encoded_tokens s))"
    by (simp add: most_common_in_stream)
  then have "first_token tp \<in> set (encoded_tokens s)" "second_token tp \<in> set (encoded_tokens s)"
    by (auto dest: adjacent_members)
  then have new: "first_token tp < mint_token s" "second_token tp < mint_token s"
    by (auto dest: lt)
  have "t < mint_token s'" if "t \<in> set (encoded_tokens s')" for t
  proof -
    from that have "t = mint_token s \<or> t \<in> set (encoded_tokens s)"
      using set_merge_pairs [of "first_token tp" "second_token tp" "mint_token s" "encoded_tokens s"]
      by (auto simp: merged(3))
    then show ?thesis using lt by (auto simp: merged(3)) force
  qed
  moreover have "first_token tp' < k \<and> second_token tp' < k"
    if "decoding_map s' k = Some tp'" for k tp'
    using that new dec by (auto simp: merged(3) split: if_splits)
  moreover have "tcounts s' = count (encoded_tokens s')"
    by (simp add: merged(3))
  ultimately show ?thesis
    unfolding stream_ok_def by blast
qed

lemma train_invariant:
  assumes "\<And>s fin s'. P s \<Longrightarrow> swap_top s = Inr (fin, s') \<Longrightarrow> P s'"
  shows "P s \<Longrightarrow> train s = Inr s' \<Longrightarrow> P s'"
proof (induction s rule: train.induct)
  case (1 s)
  from "1.prems"(2) obtain fin s1 where sw: "swap_top s = Inr (fin, s1)"
    by (subst (asm) train.simps) (auto split: sum.splits)
  from assms [OF "1.prems"(1) sw] have P1: "P s1" .
  show ?case
  proof (cases fin)
    case True
    with sw "1.prems"(2) have "s' = s1"
      by (subst (asm) train.simps) simp
    with P1 show ?thesis by simp
  next
    case False
    with sw "1.prems"(2) have "train s1 = Inr s'"
      by (subst (asm) train.simps) simp
    with "1.IH" [OF sw refl False P1] show ?thesis by simp
  qed
qed

lemma table_ok_train: "table_ok s \<Longrightarrow> train s = Inr s' \<Longrightarrow> table_ok s'"
  by (rule train_invariant [where P = table_ok]) (rule table_ok_swap_top)

lemma stream_ok_train: "stream_ok s \<Longrightarrow> train s = Inr s' \<Longrightarrow> stream_ok s'"
  by (rule train_invariant [where P = stream_ok]) (rule stream_ok_swap_top)

section \<open>Decoding undoes encoding\<close>

text \<open>
  \<open>expands dm xs zs\<close>: some number of decode passes takes \<open>xs\<close> to \<open>zs\<close>, and \<open>zs\<close> holds
  no symbol of the decode map any more.
\<close>

definition expands :: "(int \<rightharpoonup> TokenPair) \<Rightarrow> int list \<Rightarrow> int list \<Rightarrow> bool" where
  "expands dm xs zs \<longleftrightarrow>
     (\<exists>n. (decode_pass dm ^^ n) xs = zs \<and> (\<forall>t\<in>set zs. dm t = None))"

text \<open>Every truthy entry of the encode map has its inverse in the decode map.\<close>

definition consistent :: "(int \<times> int \<rightharpoonup> int) \<Rightarrow> (int \<rightharpoonup> TokenPair) \<Rightarrow> bool" where
  "consistent em dm \<longleftrightarrow>
     (\<forall>p m. em p = Some m \<longrightarrow> m \<noteq> 0 \<longrightarrow> (\<exists>tp. dm m = Some tp \<and> key tp = p))"

lemma funpow_pass_settled:
  "\<forall>t\<in>set zs. dm t = None \<Longrightarrow> (decode_pass dm ^^ n) zs = zs"
  by (induction n) (simp_all add: decode_pass_id)

lemma funpow_pass_append:
  "(decode_pass dm ^^ n) (xs @ ys) = (decode_pass dm ^^ n) xs @ (decode_pass dm ^^ n) ys"
  by (induction n) (simp_all add: decode_pass_append)

lemma expands_decode:
  assumes "expands dm xs zs"
  shows "decode dm xs = Some zs"
proof -
  from assms obtain n where "(decode_pass dm ^^ n) xs = zs" "\<forall>t\<in>set zs. dm t = None"
    unfolding expands_def by blast
  then show ?thesis
  proof (induction n arbitrary: xs)
    case 0
    then show ?case by (subst decode_unfold) simp
  next
    case (Suc n)
    show ?case
    proof (cases "\<forall>t\<in>set xs. dm t = None")
      case True
      then have "(decode_pass dm ^^ Suc n) xs = xs" by (rule funpow_pass_settled)
      with Suc.prems(1) True show ?thesis by (subst decode_unfold) simp
    next
      case False
      from Suc.prems(1) have "(decode_pass dm ^^ n) (decode_pass dm xs) = zs"
        by (simp add: funpow_swap1)
      from Suc.IH [OF this Suc.prems(2)] show ?thesis
        using decode_unfold [of dm xs] by (simp only: False if_False)
    qed
  qed
qed

lemma expands_settled: "\<forall>t\<in>set xs. dm t = None \<Longrightarrow> expands dm xs xs"
  unfolding expands_def by (intro exI [of _ 0]) simp

lemma expands_append:
  assumes "expands dm xs z1" and "expands dm ys z2"
  shows "expands dm (xs @ ys) (z1 @ z2)"
proof -
  from assms obtain n1 n2 where
    1: "(decode_pass dm ^^ n1) xs = z1" "\<forall>t\<in>set z1. dm t = None"
    and 2: "(decode_pass dm ^^ n2) ys = z2" "\<forall>t\<in>set z2. dm t = None"
    unfolding expands_def by blast
  have "(decode_pass dm ^^ (n2 + n1)) xs = z1"
    using 1 by (simp add: funpow_add funpow_pass_settled)
  moreover have "(decode_pass dm ^^ (n1 + n2)) ys = z2"
    using 2 by (simp add: funpow_add funpow_pass_settled)
  ultimately have "(decode_pass dm ^^ (n1 + n2)) (xs @ ys) = z1 @ z2"
    by (simp add: funpow_pass_append add.commute)
  with 1(2) 2(2) show ?thesis
    unfolding expands_def by (intro exI [of _ "n1 + n2"]) auto
qed

lemma expands_split:
  assumes "expands dm (xs @ ys) zs"
  shows "\<exists>z1 z2. zs = z1 @ z2 \<and> expands dm xs z1 \<and> expands dm ys z2"
proof -
  from assms obtain n where
    n: "(decode_pass dm ^^ n) (xs @ ys) = zs" "\<forall>t\<in>set zs. dm t = None"
    unfolding expands_def by blast
  let ?z1 = "(decode_pass dm ^^ n) xs" and ?z2 = "(decode_pass dm ^^ n) ys"
  from n have zs: "zs = ?z1 @ ?z2" by (simp add: funpow_pass_append)
  with n(2) have "\<forall>t\<in>set ?z1. dm t = None" "\<forall>t\<in>set ?z2. dm t = None" by auto
  then have "expands dm xs ?z1" "expands dm ys ?z2"
    unfolding expands_def by blast+
  with zs show ?thesis by blast
qed

lemma expands_minted:
  assumes "dm m = Some tp" and "expands dm [first_token tp, second_token tp] zs"
  shows "expands dm [m] zs"
proof -
  from assms(2) obtain n where
    n: "(decode_pass dm ^^ n) [first_token tp, second_token tp] = zs" "\<forall>t\<in>set zs. dm t = None"
    unfolding expands_def by blast
  from assms(1) have "decode_pass dm [m] = [first_token tp, second_token tp]"
    by (simp add: decode_pass_def expand1_def)
  with n(1) have "(decode_pass dm ^^ Suc n) [m] = zs"
    by (simp add: funpow_swap1)
  with n(2) show ?thesis
    unfolding expands_def by blast
qed

lemma contract_expands:
  "consistent em dm \<Longrightarrow> expands dm xs zs \<Longrightarrow> expands dm (contract em xs) zs"
proof (induction em xs arbitrary: zs rule: contract.induct)
  case (1 em x y rest)
  note cons = "1.prems"(1) and ex = "1.prems"(2)
  show ?case
  proof (cases "truthy (em (x, y))")
    case True
    then obtain m where m: "em (x, y) = Some m" "m \<noteq> 0"
      by (auto simp: truthy_def split: option.splits)
    with cons obtain tp where tp: "dm m = Some tp" "key tp = (x, y)"
      unfolding consistent_def by blast
    from ex have "expands dm ([x, y] @ rest) zs" by simp
    then obtain z1 z2 where
      z: "zs = z1 @ z2" "expands dm [x, y] z1" "expands dm rest z2"
      using expands_split by blast
    from tp z(2) have "expands dm [m] z1"
      by (intro expands_minted [of dm m tp]) (simp_all add: key_def)
    moreover from "1.IH"(1) [OF True cons z(3)] have "expands dm (contract em rest) z2" .
    ultimately have "expands dm ([m] @ contract em rest) (z1 @ z2)"
      by (rule expands_append)
    with True m z(1) show ?thesis by simp
  next
    case False
    from ex have "expands dm ([x] @ (y # rest)) zs" by simp
    then obtain z1 z2 where
      z: "zs = z1 @ z2" "expands dm [x] z1" "expands dm (y # rest) z2"
      using expands_split by blast
    from "1.IH"(2) [OF False cons z(3)] have "expands dm (contract em (y # rest)) z2" .
    with z(2) have "expands dm ([x] @ contract em (y # rest)) (z1 @ z2)"
      by (rule expands_append)
    with False z(1) show ?thesis by simp
  qed
qed simp_all

lemma encode_expands:
  "consistent em dm \<Longrightarrow> expands dm xs zs \<Longrightarrow> expands dm (encode em xs) zs"
proof (induction em xs rule: encode.induct)
  case (1 em dec_tokens)
  note cons = "1.prems"(1) and ex = "1.prems"(2)
  show ?case
  proof (cases "\<forall>p\<in>set (adjacent dec_tokens). \<not> truthy (em p)")
    case True
    with ex show ?thesis by (subst encode_unfold) simp
  next
    case False
    have e: "encode em dec_tokens = encode em (contract em dec_tokens)"
      using encode_unfold [where em = em and xs = dec_tokens] by (simp only: False if_False)
    from False have pass: "encode_pass em dec_tokens = (contract em dec_tokens, False)"
      by (simp add: encode_pass_eq)
    from cons ex have "expands dm (contract em dec_tokens) zs"
      by (rule contract_expands)
    with "1.IH" [OF pass [symmetric]] cons show ?thesis
      by (simp add: e)
  qed
qed

lemma table_ok_consistent: "table_ok s \<Longrightarrow> consistent (encoding_map s) (decoding_map s)"
  unfolding table_ok_def consistent_def by blast

lemma table_ok_raw:
  assumes "table_ok s" and "t < 256"
  shows "decoding_map s t = None"
proof -
  from assms have "t \<notin> dom (decoding_map s)" by (simp add: table_ok_def)
  then show ?thesis by (simp add: domIff)
qed

text \<open>
  Claim C1. For every merge table that training returns, and every raw input (symbols
  0 to 255), decoding the encoding of the input gives the input back.
\<close>

theorem round_trip:
  assumes "train (Tokenizer_init tokens vocab nm pp) = Inr s"
    and "set input \<subseteq> {0..<256}"
  shows "decode (decoding_map s) (encode (encoding_map s) input) = Some input"
proof -
  have ok: "table_ok s"
    using table_ok_init assms(1) by (rule table_ok_train)
  have "\<forall>t\<in>set input. decoding_map s t = None"
  proof
    fix t assume "t \<in> set input"
    with assms(2) have "t < 256" by auto
    with ok show "decoding_map s t = None" by (rule table_ok_raw)
  qed
  then have "expands (decoding_map s) input input"
    by (rule expands_settled)
  with table_ok_consistent [OF ok]
  have "expands (decoding_map s) (encode (encoding_map s) input) input"
    by (rule encode_expands)
  then show ?thesis by (rule expands_decode)
qed

lemma train_aaaa_257:
  "train (Tokenizer_init [97, 97, 97, 97] 257 nm pp) =
     Inr \<lparr>name = nm, path_prefix = pp, encoding_vocab_size = 257,
        original_tokens = [97, 97, 97, 97], encoded_tokens = [256, 256], mint_token = 257,
        tcounts = [((256, 256), \<lparr>first_token = 256, second_token = 256, frequency = 1\<rparr>)],
        decoding_map = [256 \<mapsto> \<lparr>first_token = 97, second_token = 97, frequency = 3\<rparr>],
        encoding_map = [(97, 97) \<mapsto> 256]\<rparr>"
  by (subst train.simps) (simp add: swap_top_aaaa)

theorem round_trip_witness:
  "\<exists>s. train (Tokenizer_init [97, 97, 97, 97] 257 ''tinyshakespeare'' None) = Inr s
     \<and> set [97, 97, 98 :: int] \<subseteq> {0..<256}
     \<and> encode (encoding_map s) [97, 97, 98] = [256, 98]
     \<and> decode (decoding_map s) (encode (encoding_map s) [97, 97, 98]) = Some [97, 97, 98]"
proof -
  let ?s = "\<lparr>name = ''tinyshakespeare'', path_prefix = None, encoding_vocab_size = 257,
        original_tokens = [97, 97, 97, 97], encoded_tokens = [256, 256], mint_token = 257,
        tcounts = [((256, 256), \<lparr>first_token = 256, second_token = 256, frequency = 1\<rparr>)],
        decoding_map = [256 \<mapsto> \<lparr>first_token = 97, second_token = 97, frequency = 3\<rparr>],
        encoding_map = [(97, 97) \<mapsto> 256]\<rparr>"
  have t: "train (Tokenizer_init [97, 97, 97, 97] 257 ''tinyshakespeare'' None) = Inr ?s"
    by (rule train_aaaa_257)
  have r: "set [97, 97, 98 :: int] \<subseteq> {0..<256}" by simp
  have e: "encode (encoding_map ?s) [97, 97, 98] = [256, 98]"
    by (subst encode_unfold, simp add: truthy_def, subst encode_unfold, simp add: truthy_def)
  from round_trip [OF t r] t r e show ?thesis by blast
qed

section \<open>The vocabulary bound\<close>

lemma py_max_greatest:
  assumes "py_max xs = Inr m"
  shows "m \<in> set xs \<and> (\<forall>t\<in>set xs. t \<le> m)"
proof (cases xs)
  case Nil
  with assms show ?thesis by (simp add: py_max_def)
next
  case (Cons y ys)
  with assms have "m = fold max ys y"
    by (simp add: py_max_def)
  then have "m = Max (set (y # ys))"
    by (simp only: Max.set_eq_fold)
  moreover have "Max (set (y # ys)) \<in> set (y # ys)"
    by (rule Max_in) simp_all
  moreover have "\<forall>t\<in>set (y # ys). t \<le> Max (set (y # ys))"
    by (intro ballI Max_ge) simp_all
  ultimately show ?thesis using Cons by simp
qed

text \<open>After a merge the largest symbol of the stream is the symbol just minted.\<close>

lemma merged_max_is_mint:
  assumes "stream_ok s" and "get_most_common (tcounts s) = Inr tp"
    and "py_max (merge_pairs (first_token tp) (second_token tp) (mint_token s)
           (encoded_tokens s)) = Inr m"
  shows "m = mint_token s"
proof -
  let ?new = "merge_pairs (first_token tp) (second_token tp) (mint_token s) (encoded_tokens s)"
  from assms(1,2) have "get_most_common (count (encoded_tokens s)) = Inr tp"
    by (simp add: stream_ok_def)
  then have "(first_token tp, second_token tp) \<in> set (adjacent (encoded_tokens s))"
    by (rule most_common_in_stream)
  then have "mint_token s \<in> set ?new" by (rule merge_pairs_has_mint)
  with py_max_greatest [OF assms(3)] have "mint_token s \<le> m" by blast
  moreover have "m \<le> mint_token s"
  proof -
    from py_max_greatest [OF assms(3)] have "m \<in> set ?new" by blast
    with set_merge_pairs [of "first_token tp" "second_token tp" "mint_token s" "encoded_tokens s"]
    have "m = mint_token s \<or> m \<in> set (encoded_tokens s)" by auto
    with assms(1) show ?thesis by (auto simp: stream_ok_def)
  qed
  ultimately show ?thesis by simp
qed

lemma swap_top_step:
  assumes "stream_ok s" and "swap_top s = Inr (fin, s')"
  shows "(s' = s \<and> fin \<and> (\<exists>tp. get_most_common (tcounts s) = Inr tp \<and> frequency tp = 1))
     \<or> (mint_token s' = mint_token s + 1
         \<and> encoding_vocab_size s' = encoding_vocab_size s
         \<and> (fin \<longleftrightarrow> mint_token s' = encoding_vocab_size s)
         \<and> (\<exists>tp. get_most_common (tcounts s) = Inr tp \<and> frequency tp \<noteq> 1))"
  using assms(2)
proof (cases rule: swap_top_cases)
  case (saturated tp)
  then show ?thesis by blast
next
  case (merged tp m)
  from merged(3) have e: "encoded_tokens s' =
      merge_pairs (first_token tp) (second_token tp) (mint_token s) (encoded_tokens s)"
    and mt: "mint_token s' = mint_token s + 1"
    and v: "encoding_vocab_size s' = encoding_vocab_size s"
    by simp_all
  from merged(4) e have "m = mint_token s"
    by (intro merged_max_is_mint [OF assms(1) merged(1)]) simp
  with merged(5) mt have "fin \<longleftrightarrow> mint_token s' = encoding_vocab_size s" by simp
  with mt v merged(1,2) show ?thesis by blast
qed

lemma train_step:
  assumes "swap_top s = Inr (fin, s1)"
  shows "train s = (if fin then Inr s1 else train s1)"
  using assms by (subst train.simps) simp

lemma train_first_step:
  assumes "train s = Inr s'"
  obtains fin s1 where "swap_top s = Inr (fin, s1)"
  using assms by (subst (asm) train.simps) (auto split: sum.splits)

lemma vocab_size_swap_top:
  assumes "swap_top s = Inr (fin, s')"
  shows "encoding_vocab_size s' = encoding_vocab_size s"
  using assms by (cases rule: swap_top_cases) simp_all

lemma mint_token_swap_top:
  assumes "swap_top s = Inr (fin, s')"
  shows "mint_token s \<le> mint_token s'"
  using assms by (cases rule: swap_top_cases) simp_all

lemma vocab_size_train: "train s = Inr s' \<Longrightarrow> encoding_vocab_size s' = encoding_vocab_size s"
  by (rule train_invariant [where P = "\<lambda>x. encoding_vocab_size x = encoding_vocab_size s" and s = s])
    (simp_all add: vocab_size_swap_top)

lemma mint_token_train: "train s = Inr s' \<Longrightarrow> mint_token s \<le> mint_token s'"
proof (rule train_invariant [where P = "\<lambda>x. mint_token s \<le> mint_token x" and s = s])
  fix x fin x' assume "mint_token s \<le> mint_token x" "swap_top x = Inr (fin, x')"
  with mint_token_swap_top [of x fin x'] show "mint_token s \<le> mint_token x'" by simp
qed simp_all

text \<open>
  With the next symbol to mint below the target at the head of the loop, training stops
  with it at most at the target.
\<close>

lemma train_large_vocab:
  "stream_ok s \<Longrightarrow> mint_token s < encoding_vocab_size s \<Longrightarrow> train s = Inr s'
     \<Longrightarrow> mint_token s' \<le> encoding_vocab_size s"
proof (induction s rule: train.induct)
  case (1 s)
  from "1.prems"(3) obtain fin s1 where sw: "swap_top s = Inr (fin, s1)"
    by (rule train_first_step)
  from "1.prems"(1) sw have ok1: "stream_ok s1" by (rule stream_ok_swap_top)
  from "1.prems"(3) have tr: "(if fin then Inr s1 else train s1) = Inr s'"
    by (simp add: train_step [OF sw])
  from swap_top_step [OF "1.prems"(1) sw] show ?case
  proof
    assume "s1 = s \<and> fin \<and> (\<exists>tp. get_most_common (tcounts s) = Inr tp \<and> frequency tp = 1)"
    with tr "1.prems"(2) show ?thesis by auto
  next
    assume m: "mint_token s1 = mint_token s + 1
         \<and> encoding_vocab_size s1 = encoding_vocab_size s
         \<and> (fin \<longleftrightarrow> mint_token s1 = encoding_vocab_size s)
         \<and> (\<exists>tp. get_most_common (tcounts s) = Inr tp \<and> frequency tp \<noteq> 1)"
    show ?thesis
    proof (cases fin)
      case True
      with tr m show ?thesis by auto
    next
      case False
      with tr have t1: "train s1 = Inr s'" by simp
      from False m "1.prems"(2) have "mint_token s1 < encoding_vocab_size s1" by auto
      from "1.IH" [OF sw refl False ok1 this t1] m show ?thesis by simp
    qed
  qed
qed


lemma max_key:
  assumes "table_ok s"
  shows "Max (dom (decoding_map s) \<union> {255}) + 1 = mint_token s"
proof -
  from assms have d: "dom (decoding_map s) = {256..<mint_token s}" and m: "256 \<le> mint_token s"
    by (simp_all add: table_ok_def)
  have "Max ({256..<mint_token s} \<union> {255}) = mint_token s - 1"
  proof (rule Max_eqI)
    show "finite ({256..<mint_token s} \<union> {255})" by simp
    show "\<And>y. y \<in> {256..<mint_token s} \<union> {255} \<Longrightarrow> y \<le> mint_token s - 1"
      using m by auto
    show "mint_token s - 1 \<in> {256..<mint_token s} \<union> {255}"
      using m by auto
  qed
  with d show ?thesis by simp
qed

lemma train_aaaa_other:
  assumes "vocab \<noteq> 257"
  shows "train (Tokenizer_init [97, 97, 97, 97] vocab nm pp) =
     Inr \<lparr>name = nm, path_prefix = pp, encoding_vocab_size = vocab,
        original_tokens = [97, 97, 97, 97], encoded_tokens = [256, 256], mint_token = 257,
        tcounts = [((256, 256), \<lparr>first_token = 256, second_token = 256, frequency = 1\<rparr>)],
        decoding_map = [256 \<mapsto> \<lparr>first_token = 97, second_token = 97, frequency = 3\<rparr>],
        encoding_map = [(97, 97) \<mapsto> 256]\<rparr>"
proof -
  let ?s1 = "\<lparr>name = nm, path_prefix = pp, encoding_vocab_size = vocab,
        original_tokens = [97, 97, 97, 97], encoded_tokens = [256, 256], mint_token = 257,
        tcounts = [((256, 256), \<lparr>first_token = 256, second_token = 256, frequency = 1\<rparr>)],
        decoding_map = [256 \<mapsto> \<lparr>first_token = 97, second_token = 97, frequency = 3\<rparr>],
        encoding_map = [(97, 97) \<mapsto> 256]\<rparr>"
  from assms have 1: "swap_top (Tokenizer_init [97, 97, 97, 97] vocab nm pp) = Inr (False, ?s1)"
    by (simp add: swap_top_aaaa)
  have 2: "swap_top ?s1 = Inr (True, ?s1)"
    by (simp add: swap_top_def get_most_common_def)
  show ?thesis
    by (simp add: train_step [OF 1] train_step [OF 2])
qed

text \<open>
  Claim C8, amended. After a training run on raw symbols that returns,
  \<^verbatim>\<open>max(decode_map.keys() | {255}) + 1\<close> is within the target vocabulary size exactly
  when the target is above 256, or is 256 and nothing was minted. (A step compares the
  largest symbol of the stream plus one with the target by equality, and the first
  minted symbol is 256.)
\<close>

theorem vocabulary_bound:
  assumes "train (Tokenizer_init tokens vocab nm pp) = Inr s"
    and "set tokens \<subseteq> {0..<256}"
  shows "Max (dom (decoding_map s) \<union> {255}) + 1 \<le> vocab
     \<longleftrightarrow> 256 < vocab \<or> (vocab = 256 \<and> decoding_map s = Map.empty)"
proof -
  let ?s0 = "Tokenizer_init tokens vocab nm pp"
  have ok: "table_ok s"
    using table_ok_init assms(1) by (rule table_ok_train)
  then have d: "dom (decoding_map s) = {256..<mint_token s}" and m: "256 \<le> mint_token s"
    by (simp_all add: table_ok_def)
  from assms(2) have raw: "\<forall>t\<in>set tokens. t < 256" by auto
  have s0: "stream_ok ?s0" using raw by (rule stream_ok_init)
  have k: "Max (dom (decoding_map s) \<union> {255}) + 1 = mint_token s"
    using ok by (rule max_key)
  have e: "decoding_map s = Map.empty \<longleftrightarrow> mint_token s = 256"
  proof
    assume "decoding_map s = Map.empty"
    then have "dom (decoding_map s) = {}" by simp
    with d m show "mint_token s = 256" by simp
  next
    assume "mint_token s = 256"
    with d have "dom (decoding_map s) = {}" by simp
    then show "decoding_map s = Map.empty" by simp
  qed
  show ?thesis
  proof (cases "256 < vocab")
    case True
    then have "mint_token ?s0 < encoding_vocab_size ?s0"
      by (simp add: Tokenizer_init_def)
    with s0 have "mint_token s \<le> encoding_vocab_size ?s0"
      using assms(1) by (rule train_large_vocab)
    with True k show ?thesis by (simp add: Tokenizer_init_def)
  next
    case False
    with k m e show ?thesis by auto
  qed
qed

theorem vocabulary_bound_witness:
  "\<exists>s. train (Tokenizer_init [97, 97, 97, 97] 257 ''tinyshakespeare'' None) = Inr s
     \<and> set [97, 97, 97, 97 :: int] \<subseteq> {0..<256}
     \<and> dom (decoding_map s) = {256}
     \<and> Max (dom (decoding_map s) \<union> {255}) + 1 \<le> 257"
proof -
  let ?s = "\<lparr>name = ''tinyshakespeare'', path_prefix = None, encoding_vocab_size = 257,
        original_tokens = [97, 97, 97, 97], encoded_tokens = [256, 256], mint_token = 257,
        tcounts = [((256, 256), \<lparr>first_token = 256, second_token = 256, frequency = 1\<rparr>)],
        decoding_map = [256 \<mapsto> \<lparr>first_token = 97, second_token = 97, frequency = 3\<rparr>],
        encoding_map = [(97, 97) \<mapsto> 256]\<rparr>"
  have t: "train (Tokenizer_init [97, 97, 97, 97] 257 ''tinyshakespeare'' None) = Inr ?s"
    by (rule train_aaaa_257)
  have r: "set [97, 97, 97, 97 :: int] \<subseteq> {0..<256}" by simp
  have d: "dom (decoding_map ?s) = {256}" by simp
  have "(256 :: int) < 257 \<or> ((257 :: int) = 256 \<and> decoding_map ?s = Map.empty)" by simp
  with vocabulary_bound [OF t r] have b: "Max (dom (decoding_map ?s) \<union> {255}) + 1 \<le> 257"
    by (rule iffD2)
  show ?thesis
    by (rule exI [of _ ?s]) (intro conjI t r d b)
qed

text \<open>
  The claim as stated fails for a target of 256: on the input \<^verbatim>\<open>aaaa\<close> training mints
  the symbol 256, and 256 + 1 exceeds the target.
\<close>

theorem vocabulary_bound_counterexample:
  "train (Tokenizer_init [97, 97, 97, 97] 256 ''tinyshakespeare'' None) =
     Inr \<lparr>name = ''tinyshakespeare'', path_prefix = None, encoding_vocab_size = 256,
        original_tokens = [97, 97, 97, 97], encoded_tokens = [256, 256], mint_token = 257,
        tcounts = [((256, 256), \<lparr>first_token = 256, second_token = 256, frequency = 1\<rparr>)],
        decoding_map = [256 \<mapsto> \<lparr>first_token = 97, second_token = 97, frequency = 3\<rparr>],
        encoding_map = [(97, 97) \<mapsto> 256]\<rparr>
   \<and> \<not> Max (dom [256 :: int \<mapsto> \<lparr>first_token = 97 :: int, second_token = 97 :: int,
                                  frequency = 3 :: int\<rparr>] \<union> {255}) + 1 \<le> 256"
  by (simp add: train_aaaa_other)

section \<open>The output of encoding\<close>

text \<open>The values of a trained encode map are minted symbols, from 256 on, hence truthy.\<close>

lemma table_ok_truthy:
  assumes "table_ok s" and "encoding_map s p = Some m"
  shows "truthy (encoding_map s p)"
proof -
  from assms obtain tp where "decoding_map s m = Some tp"
    unfolding table_ok_def by blast
  then have "m \<in> dom (decoding_map s)" by (simp add: domIff)
  with assms(1) have "256 \<le> m" by (simp add: table_ok_def)
  with assms(2) show ?thesis by (simp add: truthy_def)
qed

text \<open>
  Claim C10. For every merge table that training returns (the tables the tokenizer
  holds: \<^verbatim>\<open>encoding_map\<close> is written only by \<^verbatim>\<open>swap_top\<close>, or loaded from a table that
  training saved) and every symbol sequence, no adjacent pair of the output of
  \<^verbatim>\<open>encode\<close> is a key of the encode map.
\<close>

theorem encode_output_has_no_key_pair:
  assumes "train (Tokenizer_init tokens vocab nm pp) = Inr s"
  shows "\<forall>i. Suc i < length (encode (encoding_map s) xs) \<longrightarrow>
     (encode (encoding_map s) xs ! i, encode (encoding_map s) xs ! Suc i)
       \<notin> dom (encoding_map s)"
proof (intro allI impI)
  fix i assume i: "Suc i < length (encode (encoding_map s) xs)"
  let ?p = "(encode (encoding_map s) xs ! i, encode (encoding_map s) xs ! Suc i)"
  have ok: "table_ok s"
    using table_ok_init assms by (rule table_ok_train)
  from i have "?p \<in> set (adjacent (encode (encoding_map s) xs))"
    by (rule adjacent_index)
  with encode_settled [of "encoding_map s" xs] have nt: "\<not> truthy (encoding_map s ?p)"
    by blast
  show "?p \<notin> dom (encoding_map s)"
  proof
    assume "?p \<in> dom (encoding_map s)"
    then obtain m where "encoding_map s ?p = Some m" by blast
    with ok have "truthy (encoding_map s ?p)" by (rule table_ok_truthy)
    with nt show False by contradiction
  qed
qed

theorem encode_output_has_no_key_pair_witness:
  "\<exists>s. train (Tokenizer_init [97, 97, 97, 97] 257 ''tinyshakespeare'' None) = Inr s
     \<and> encoding_map s = [(97, 97) \<mapsto> 256]
     \<and> encode (encoding_map s) [97, 97, 97] = [256, 97]
     \<and> Suc 0 < length (encode (encoding_map s) [97, 97, 97])
     \<and> (encode (encoding_map s) [97, 97, 97] ! 0, encode (encoding_map s) [97, 97, 97] ! Suc 0)
          \<notin> dom (encoding_map s)"
proof -
  let ?s = "\<lparr>name = ''tinyshakespeare'', path_prefix = None, encoding_vocab_size = 257,
        original_tokens = [97, 97, 97, 97], encoded_tokens = [256, 256], mint_token = 257,
        tcounts = [((256, 256), \<lparr>first_token = 256, second_token = 256, frequency = 1\<rparr>)],
        decoding_map = [256 \<mapsto> \<lparr>first_token = 97, second_token = 97, frequency = 3\<rparr>],
        encoding_map = [(97, 97) \<mapsto> 256]\<rparr>"
  have t: "train (Tokenizer_init [97, 97, 97, 97] 257 ''tinyshakespeare'' None) = Inr ?s"
    by (rule train_aaaa_257)
  have m: "encoding_map ?s = [(97, 97) \<mapsto> 256]" by simp
  have e: "encode (encoding_map ?s) [97, 97, 97] = [256, 97]"
    by (simp add: encode_aaa)
  have l: "Suc 0 < length (encode (encoding_map ?s) [97, 97, 97])"
    by (simp only: e) simp
  note a = encode_output_has_no_key_pair [OF t, of "[97, 97, 97]", rule_format, OF l]
  show ?thesis
    by (rule exI [of _ ?s]) (intro conjI t m e l a)
qed

section \<open>Decoding terminates\<close>

text \<open>
  A decode map in which every minted symbol stands for a pair of strictly smaller
  symbols.
\<close>

definition minted_decreasing :: "(int \<rightharpoonup> TokenPair) \<Rightarrow> bool" where
  "minted_decreasing dm \<longleftrightarrow>
     (\<forall>k tp. dm k = Some tp \<longrightarrow> first_token tp < k \<and> second_token tp < k)"

text \<open>The number of minted symbols at or below a symbol bounds the passes it needs.\<close>

definition rank :: "(int \<rightharpoonup> TokenPair) \<Rightarrow> int \<Rightarrow> nat" where
  "rank dm t = card {k \<in> dom dm. k \<le> t}"

lemma rank_less:
  assumes "finite (dom dm)" and "u \<in> dom dm" and "t < u"
  shows "rank dm t < rank dm u"
proof -
  have "{k \<in> dom dm. k \<le> t} \<subseteq> {k \<in> dom dm. k \<le> u}"
    using assms(3) by auto
  moreover have "u \<in> {k \<in> dom dm. k \<le> u}" "u \<notin> {k \<in> dom dm. k \<le> t}"
    using assms(2,3) by simp_all
  ultimately have "{k \<in> dom dm. k \<le> t} \<subset> {k \<in> dom dm. k \<le> u}"
    by blast
  moreover have "finite {k \<in> dom dm. k \<le> u}"
    using assms(1) by simp
  ultimately show ?thesis
    unfolding rank_def by (rule psubset_card_mono [rotated])
qed

lemma rank_le_card: "finite (dom dm) \<Longrightarrow> rank dm t \<le> card (dom dm)"
  unfolding rank_def by (rule card_mono) auto

lemma rank_pos:
  assumes "finite (dom dm)" and "t \<in> dom dm"
  shows "0 < rank dm t"
proof -
  have "finite {k \<in> dom dm. k \<le> t}" using assms(1) by simp
  moreover have "t \<in> {k \<in> dom dm. k \<le> t}" using assms(2) by simp
  ultimately show ?thesis
    unfolding rank_def by (auto simp: card_gt_0_iff)
qed

lemma set_decode_pass:
  "set (decode_pass dm xs) =
     (\<Union>u\<in>set xs. case dm u of None \<Rightarrow> {u} | Some tp \<Rightarrow> {first_token tp, second_token tp})"
  by (auto simp: decode_pass_def expand1_def split: option.splits)

lemma passes_settle:
  assumes "finite (dom dm)" and "minted_decreasing dm"
  shows "\<forall>t\<in>set xs. dm t \<noteq> None \<longrightarrow> rank dm t \<le> n
     \<Longrightarrow> \<forall>t\<in>set ((decode_pass dm ^^ n) xs). dm t = None"
proof (induction n arbitrary: xs)
  case 0
  show ?case
  proof
    fix t assume t: "t \<in> set ((decode_pass dm ^^ 0) xs)"
    show "dm t = None"
    proof (rule ccontr)
      assume "dm t \<noteq> None"
      then have "t \<in> dom dm" by (simp add: domIff)
      with assms(1) have "0 < rank dm t" by (rule rank_pos)
      moreover from 0 t \<open>dm t \<noteq> None\<close> have "rank dm t \<le> 0" by simp
      ultimately show False by simp
    qed
  qed
next
  case (Suc n)
  have "\<forall>t\<in>set (decode_pass dm xs). dm t \<noteq> None \<longrightarrow> rank dm t \<le> n"
  proof (intro ballI impI)
    fix t assume t: "t \<in> set (decode_pass dm xs)" and m: "dm t \<noteq> None"
    from t obtain u where u: "u \<in> set xs"
      and tu: "t \<in> (case dm u of None \<Rightarrow> {u} | Some tp \<Rightarrow> {first_token tp, second_token tp})"
      unfolding set_decode_pass by blast
    show "rank dm t \<le> n"
    proof (cases "dm u")
      case None
      with tu m show ?thesis by simp
    next
      case (Some tp)
      with tu assms(2) have "t < u" by (auto simp: minted_decreasing_def)
      moreover from Some have "u \<in> dom dm" by (simp add: domIff)
      ultimately have "rank dm t < rank dm u"
        using assms(1) by (intro rank_less)
      moreover from Suc.prems u Some have "rank dm u \<le> Suc n" by simp
      ultimately show ?thesis by simp
    qed
  qed
  from Suc.IH [OF this] show ?case by (simp add: funpow_swap1)
qed

lemma decode_stops_at_first_settled_pass:
  assumes "finite (dom dm)" and "minted_decreasing dm"
  shows "\<exists>n. decode dm xs = Some ((decode_pass dm ^^ n) xs)
     \<and> (\<forall>t\<in>set ((decode_pass dm ^^ n) xs). dm t = None)
     \<and> (\<forall>i<n. \<exists>t\<in>set ((decode_pass dm ^^ i) xs). dm t \<noteq> None)"
proof -
  let ?P = "\<lambda>n. \<forall>t\<in>set ((decode_pass dm ^^ n) xs). dm t = None"
  from assms(1) have "\<forall>t\<in>set xs. dm t \<noteq> None \<longrightarrow> rank dm t \<le> card (dom dm)"
    by (simp add: rank_le_card)
  with assms have "?P (card (dom dm))" by (rule passes_settle)
  then have "\<exists>n. ?P n" ..
  then obtain n where n: "?P n" "\<forall>i<n. \<not> ?P i"
    unfolding exists_least_iff [of ?P] by blast
  from n(1) have "expands dm xs ((decode_pass dm ^^ n) xs)"
    unfolding expands_def by blast
  then have "decode dm xs = Some ((decode_pass dm ^^ n) xs)"
    by (rule expands_decode)
  moreover from n(2) have "\<forall>i<n. \<exists>t\<in>set ((decode_pass dm ^^ i) xs). dm t \<noteq> None"
    by blast
  ultimately show ?thesis using n(1) by blast
qed

text \<open>Training on raw symbols (0 to 255) gives such a map.\<close>

lemma trained_minted_decreasing:
  assumes "train (Tokenizer_init tokens vocab nm pp) = Inr s"
    and "\<forall>t\<in>set tokens. t < 256"
  shows "minted_decreasing (decoding_map s)"
proof -
  have "stream_ok s"
    using stream_ok_init [OF assms(2)] assms(1) by (rule stream_ok_train)
  then show ?thesis
    unfolding minted_decreasing_def stream_ok_def by blast
qed

text \<open>
  Claim C7. For every decode map that training returns and in which each minted symbol
  maps to a pair of strictly smaller symbols, and for every symbol sequence, the decode
  loop returns: it returns the stream after the first pass count \<open>n\<close> at which no
  symbol of the map is left (the pass that follows expands nothing), every earlier
  pass having expanded something.
\<close>

theorem decode_terminates:
  assumes "train (Tokenizer_init tokens vocab nm pp) = Inr s"
    and "minted_decreasing (decoding_map s)"
  shows "\<exists>n. decode (decoding_map s) xs = Some ((decode_pass (decoding_map s) ^^ n) xs)
     \<and> (\<forall>t\<in>set ((decode_pass (decoding_map s) ^^ n) xs). decoding_map s t = None)
     \<and> (\<forall>i<n. \<exists>t\<in>set ((decode_pass (decoding_map s) ^^ i) xs). decoding_map s t \<noteq> None)"
proof -
  have "table_ok s"
    using table_ok_init assms(1) by (rule table_ok_train)
  then have "finite (dom (decoding_map s))" by (simp add: table_ok_def)
  then show ?thesis using assms(2) by (rule decode_stops_at_first_settled_pass)
qed

theorem decode_terminates_witness:
  "\<exists>s. train (Tokenizer_init [97, 97, 97, 97] 257 ''tinyshakespeare'' None) = Inr s
     \<and> minted_decreasing (decoding_map s)
     \<and> decoding_map s 256 = Some \<lparr>first_token = 97, second_token = 97, frequency = 3\<rparr>
     \<and> (\<exists>n. decode (decoding_map s) [256, 98]
              = Some ((decode_pass (decoding_map s) ^^ n) [256, 98])
          \<and> (\<forall>t\<in>set ((decode_pass (decoding_map s) ^^ n) [256, 98]). decoding_map s t = None)
          \<and> (\<forall>i<n. \<exists>t\<in>set ((decode_pass (decoding_map s) ^^ i) [256, 98]).
                 decoding_map s t \<noteq> None))
     \<and> decode (decoding_map s) [256, 98] = Some [97, 97, 98]"
proof -
  let ?s = "\<lparr>name = ''tinyshakespeare'', path_prefix = None, encoding_vocab_size = 257,
        original_tokens = [97, 97, 97, 97], encoded_tokens = [256, 256], mint_token = 257,
        tcounts = [((256, 256), \<lparr>first_token = 256, second_token = 256, frequency = 1\<rparr>)],
        decoding_map = [256 \<mapsto> \<lparr>first_token = 97, second_token = 97, frequency = 3\<rparr>],
        encoding_map = [(97, 97) \<mapsto> 256]\<rparr>"
  have t: "train (Tokenizer_init [97, 97, 97, 97] 257 ''tinyshakespeare'' None) = Inr ?s"
    by (rule train_aaaa_257)
  have "\<forall>t\<in>set [97, 97, 97, 97 :: int]. t < 256" by simp
  with t have m: "minted_decreasing (decoding_map ?s)"
    by (rule trained_minted_decreasing)
  have e: "decoding_map ?s 256 = Some \<lparr>first_token = 97, second_token = 97, frequency = 3\<rparr>"
    by simp
  have d: "decode (decoding_map ?s) [256, 98] = Some [97, 97, 98]"
    by (subst decode_unfold, simp add: decode_pass_def expand1_def,
        subst decode_unfold, simp)
  note a = decode_terminates [OF t m, of "[256, 98]"]
  show ?thesis
    by (rule exI [of _ ?s]) (intro conjI t m e a d)
qed

section \<open>A target of at most 256\<close>








section \<open>Determinism\<close>

text \<open>
  The selection rule in the words of the specification (4.1): \<open>most_frequent\<close> is a pair
  of the stream with the highest count, and among the pairs of that count the one that
  appeared first in the stream; its frequency is that count.
\<close>

definition spec_most_frequent :: "int list \<Rightarrow> TokenPair \<Rightarrow> bool" where
  "spec_most_frequent toks tp \<longleftrightarrow>
     key tp \<in> set (adjacent toks)
     \<and> frequency tp = int (pair_count toks (key tp))
     \<and> (\<forall>q. pair_count toks q \<le> pair_count toks (key tp))
     \<and> (\<forall>q. q \<noteq> key tp \<and> pair_count toks q = pair_count toks (key tp) \<longrightarrow>
            first_occ (adjacent toks) (key tp) < first_occ (adjacent toks) q)"

text \<open>
  A training run in the words of the specification (4.2), as a relation between the
  start (stream, next symbol to mint, decode map, encode map) and the result (final
  stream and the two maps). Each step takes a pair that the selection rule allows;
  the run is done when that pair has count 1, or when after the merge the largest
  symbol of the stream plus one is the target; otherwise it goes on with the next
  symbol. Nothing here fixes an order of a table: a run may take any pair the rule
  allows.
\<close>

inductive spec_training ::
  "int \<Rightarrow> int list \<Rightarrow> int \<Rightarrow> (int \<rightharpoonup> TokenPair) \<Rightarrow> (int \<times> int \<rightharpoonup> int)
     \<Rightarrow> int list \<times> (int \<rightharpoonup> TokenPair) \<times> (int \<times> int \<rightharpoonup> int) \<Rightarrow> bool"
  for vocab :: int where
  saturated:
    "spec_most_frequent toks tp \<Longrightarrow> frequency tp = 1
     \<Longrightarrow> spec_training vocab toks next_id dm em (toks, dm, em)"
| target:
    "spec_most_frequent toks tp \<Longrightarrow> frequency tp \<noteq> 1
     \<Longrightarrow> Max (set (merge_pairs (first_token tp) (second_token tp) next_id toks)) + 1 = vocab
     \<Longrightarrow> spec_training vocab toks next_id dm em
          (merge_pairs (first_token tp) (second_token tp) next_id toks,
           dm(next_id \<mapsto> tp), em(key tp \<mapsto> next_id))"
| merge:
    "spec_most_frequent toks tp \<Longrightarrow> frequency tp \<noteq> 1
     \<Longrightarrow> Max (set (merge_pairs (first_token tp) (second_token tp) next_id toks)) + 1 \<noteq> vocab
     \<Longrightarrow> spec_training vocab (merge_pairs (first_token tp) (second_token tp) next_id toks)
          (next_id + 1) (dm(next_id \<mapsto> tp)) (em(key tp \<mapsto> next_id)) r
     \<Longrightarrow> spec_training vocab toks next_id dm em r"

text \<open>The rule allows one pair only: the tie-break leaves no choice.\<close>

lemma spec_most_frequent_unique:
  assumes "spec_most_frequent toks tp" and "spec_most_frequent toks tp'"
  shows "tp' = tp"
proof -
  have k: "key tp' = key tp"
  proof (rule ccontr)
    assume n: "key tp' \<noteq> key tp"
    from assms have "pair_count toks (key tp') \<le> pair_count toks (key tp)"
      and "pair_count toks (key tp) \<le> pair_count toks (key tp')"
      unfolding spec_most_frequent_def by blast+
    then have e: "pair_count toks (key tp') = pair_count toks (key tp)" by simp
    from assms(1) n e
    have "first_occ (adjacent toks) (key tp) < first_occ (adjacent toks) (key tp')"
      unfolding spec_most_frequent_def by blast
    moreover from assms(2) n e
    have "first_occ (adjacent toks) (key tp') < first_occ (adjacent toks) (key tp)"
      unfolding spec_most_frequent_def by (metis (no_types))
    ultimately show False by simp
  qed
  moreover from assms k have "frequency tp' = frequency tp"
    unfolding spec_most_frequent_def by simp
  ultimately show ?thesis
    by (cases tp, cases tp') (simp add: key_def)
qed

text \<open>
  The pair that the code selects, by \<^verbatim>\<open>max\<close> over the values of the insertion-ordered
  table, is the pair of the rule.
\<close>

lemma most_common_spec:
  assumes "get_most_common (count toks) = Inr tp"
  shows "spec_most_frequent toks tp"
proof -
  let ?ps = "adjacent toks"
  have ne: "?ps \<noteq> []"
  proof
    assume "?ps = []"
    with assms show False
      by (simp add: count_eq_table table_def get_most_common_def)
  qed
  from get_most_common_table [OF ne] obtain k us vs where
    g: "get_most_common (table ?ps) = Inr (snd (entry ?ps k))"
    and f: "firsts ?ps = us @ k # vs"
    and lo: "\<forall>q\<in>set us. count_list ?ps q < count_list ?ps k"
    and hi: "\<forall>q\<in>set vs. count_list ?ps q \<le> count_list ?ps k"
    by blast
  from g assms have tp: "tp = snd (entry ?ps k)"
    by (simp add: count_eq_table)
  have kt: "key tp = k" and ft: "frequency tp = int (count_list ?ps k)"
    by (simp_all add: tp entry_def key_def)
  have sets: "set ?ps = set (us @ k # vs)"
    by (metis f set_firsts)
  then have mem: "k \<in> set ?ps" by simp
  have mx: "count_list ?ps q \<le> count_list ?ps k" for q
  proof (cases "q \<in> set ?ps")
    case True
    with sets lo hi show ?thesis by (auto simp: less_imp_le)
  next
    case False
    then show ?thesis by simp
  qed
  from firsts_split [OF f] obtain pre post where
    ps: "?ps = pre @ k # post" and k: "k \<notin> set pre" and pre: "set pre = set us"
    by blast
  have tie: "first_occ ?ps k < first_occ ?ps q"
    if "q \<noteq> k" "count_list ?ps q = count_list ?ps k" for q
  proof -
    from that lo pre have "q \<notin> set pre" by auto
    from this that(1) have "length pre < first_occ (pre @ k # post) q"
      by (rule first_occ_later)
    moreover have "first_occ (pre @ k # post) k = length pre"
      using k by (rule first_occ_split)
    ultimately show ?thesis
      unfolding ps by simp
  qed
  from mem mx tie show ?thesis
    unfolding spec_most_frequent_def pair_count_def by (simp add: kt ft)
qed

lemma py_max_Max:
  assumes "py_max xs = Inr m"
  shows "m = Max (set xs)"
proof -
  from py_max_greatest [OF assms] have "m \<in> set xs" "\<forall>t\<in>set xs. t \<le> m" by blast+
  then have "Max (set xs) = m" by (intro Max_eqI) simp_all
  then show ?thesis by simp
qed

text \<open>Two runs that follow the rule from the same start give the same result.\<close>

lemma spec_training_unique:
  "spec_training vocab toks n dm em r1 \<Longrightarrow> spec_training vocab toks n dm em r2 \<Longrightarrow> r1 = r2"
proof (induction arbitrary: r2 rule: spec_training.induct)
  case (saturated toks tp n dm em)
  from saturated.prems show ?case
  proof (cases rule: spec_training.cases)
    case (saturated tp')
    then show ?thesis by simp
  next
    case (target tp')
    with spec_most_frequent_unique [OF saturated.hyps(1), of tp'] saturated.hyps(2)
    show ?thesis by simp
  next
    case (merge tp')
    with spec_most_frequent_unique [OF saturated.hyps(1), of tp'] saturated.hyps(2)
    show ?thesis by simp
  qed
next
  case (target toks tp n dm em)
  from target.prems show ?case
  proof (cases rule: spec_training.cases)
    case (saturated tp')
    with spec_most_frequent_unique [OF target.hyps(1), of tp'] target.hyps(2)
    show ?thesis by simp
  next
    case (target tp')
    with spec_most_frequent_unique [OF \<open>spec_most_frequent toks tp\<close>, of tp']
    show ?thesis by simp
  next
    case (merge tp')
    with spec_most_frequent_unique [OF target.hyps(1), of tp'] target.hyps(3)
    show ?thesis by simp
  qed
next
  case (merge toks tp n dm em r)
  from merge.prems show ?case
  proof (cases rule: spec_training.cases)
    case (saturated tp')
    with spec_most_frequent_unique [OF merge.hyps(1), of tp'] merge.hyps(2)
    show ?thesis by simp
  next
    case (target tp')
    with spec_most_frequent_unique [OF merge.hyps(1), of tp'] merge.hyps(3)
    show ?thesis by simp
  next
    case inner: (merge tp')
    from spec_most_frequent_unique [OF merge.hyps(1) inner(1)] have e: "tp' = tp" .
    from inner(4) show ?thesis
      unfolding e by (rule merge.IH)
  qed
qed

text \<open>A run of the code that returns is a run that follows the rule.\<close>

lemma train_spec_training:
  "tcounts s = count (encoded_tokens s) \<Longrightarrow> train s = Inr s'
     \<Longrightarrow> spec_training (encoding_vocab_size s) (encoded_tokens s) (mint_token s)
          (decoding_map s) (encoding_map s)
          (encoded_tokens s', decoding_map s', encoding_map s')"
proof (induction s rule: train.induct)
  case (1 s)
  from "1.prems"(2) obtain fin s1 where sw: "swap_top s = Inr (fin, s1)"
    by (rule train_first_step)
  from "1.prems"(2) have tr: "(if fin then Inr s1 else train s1) = Inr s'"
    by (simp add: train_step [OF sw])
  from sw show ?case
  proof (cases rule: swap_top_cases)
    case (saturated tp)
    from saturated(1) "1.prems"(1) have "spec_most_frequent (encoded_tokens s) tp"
      by (intro most_common_spec) simp
    moreover from saturated(3,4) tr have "s' = s" by simp
    ultimately show ?thesis
      using saturated(2) by (simp add: spec_training.saturated)
  next
    case (merged tp m)
    let ?new = "merge_pairs (first_token tp) (second_token tp) (mint_token s) (encoded_tokens s)"
    from merged(1) "1.prems"(1) have sel: "spec_most_frequent (encoded_tokens s) tp"
      by (intro most_common_spec) simp
    from merged(3) have f: "encoded_tokens s1 = ?new" "mint_token s1 = mint_token s + 1"
      "decoding_map s1 = (decoding_map s)(mint_token s \<mapsto> tp)"
      "encoding_map s1 = (encoding_map s)(key tp \<mapsto> mint_token s)"
      "encoding_vocab_size s1 = encoding_vocab_size s" "tcounts s1 = count (encoded_tokens s1)"
      by simp_all
    from merged(4) f(1) have mx: "m = Max (set ?new)"
      by (simp add: py_max_Max)
    show ?thesis
    proof (cases fin)
      case True
      with tr have e: "s' = s1" by simp
      from True merged(5) mx have "Max (set ?new) + 1 = encoding_vocab_size s" by simp
      with sel merged(2)
      have "spec_training (encoding_vocab_size s) (encoded_tokens s) (mint_token s)
          (decoding_map s) (encoding_map s)
          (?new, (decoding_map s)(mint_token s \<mapsto> tp),
           (encoding_map s)(key tp \<mapsto> mint_token s))"
        by (rule spec_training.target)
      then show ?thesis
        unfolding e f(1,3,4) .
    next
      case False
      with tr have t1: "train s1 = Inr s'" by simp
      from False merged(5) mx have d: "Max (set ?new) + 1 \<noteq> encoding_vocab_size s" by simp
      from "1.IH" [OF sw refl False f(6) t1]
      have "spec_training (encoding_vocab_size s) ?new (mint_token s + 1)
          ((decoding_map s)(mint_token s \<mapsto> tp)) ((encoding_map s)(key tp \<mapsto> mint_token s))
          (encoded_tokens s', decoding_map s', encoding_map s')"
        unfolding f(1,2,3,4,5) .
      with sel merged(2) d show ?thesis by (rule spec_training.merge)
    qed
  qed
qed

text \<open>
  Claim C9. Two training runs on the same input with the same target vocabulary size
  give the same merge table: runs that at each step take a pair the tie-break rule
  allows (highest count, first seen among ties) cannot differ, since the rule allows
  one pair only; and every run of the code that returns, whatever name and path prefix
  the tokenizer has, is such a run, its \<^verbatim>\<open>max\<close> over the insertion-ordered pair table
  taking that pair.
\<close>

theorem training_deterministic:
  "(spec_training vocab tokens 256 Map.empty Map.empty r1
      \<and> spec_training vocab tokens 256 Map.empty Map.empty r2 \<longrightarrow> r1 = r2)
   \<and> (train (Tokenizer_init tokens vocab nm pp) = Inr s \<longrightarrow>
        spec_training vocab tokens 256 Map.empty Map.empty
          (encoded_tokens s, decoding_map s, encoding_map s))"
proof (intro conjI impI)
  assume "spec_training vocab tokens 256 Map.empty Map.empty r1
      \<and> spec_training vocab tokens 256 Map.empty Map.empty r2"
  then show "r1 = r2" by (blast intro: spec_training_unique)
next
  assume t: "train (Tokenizer_init tokens vocab nm pp) = Inr s"
  have "tcounts (Tokenizer_init tokens vocab nm pp)
      = count (encoded_tokens (Tokenizer_init tokens vocab nm pp))"
    by (simp add: Tokenizer_init_def)
  from train_spec_training [OF this t]
  show "spec_training vocab tokens 256 Map.empty Map.empty
          (encoded_tokens s, decoding_map s, encoding_map s)"
    by (simp add: Tokenizer_init_def)
qed

theorem training_deterministic_witness:
  "\<exists>s1 s2. train (Tokenizer_init [97, 97, 97, 97] 257 ''tinyshakespeare'' None) = Inr s1
     \<and> train (Tokenizer_init [97, 97, 97, 97] 257 ''other'' (Some ''models/'')) = Inr s2
     \<and> spec_training 257 [97, 97, 97, 97] 256 Map.empty Map.empty
          (encoded_tokens s1, decoding_map s1, encoding_map s1)
     \<and> spec_training 257 [97, 97, 97, 97] 256 Map.empty Map.empty
          (encoded_tokens s2, decoding_map s2, encoding_map s2)
     \<and> (encoded_tokens s1, decoding_map s1, encoding_map s1)
          = (encoded_tokens s2, decoding_map s2, encoding_map s2)
     \<and> encoding_map s1 = [(97, 97) \<mapsto> 256]"
proof -
  let ?s1 = "\<lparr>name = ''tinyshakespeare'', path_prefix = None, encoding_vocab_size = 257,
        original_tokens = [97, 97, 97, 97], encoded_tokens = [256, 256], mint_token = 257,
        tcounts = [((256, 256), \<lparr>first_token = 256, second_token = 256, frequency = 1\<rparr>)],
        decoding_map = [256 \<mapsto> \<lparr>first_token = 97, second_token = 97, frequency = 3\<rparr>],
        encoding_map = [(97, 97) \<mapsto> 256]\<rparr>"
  let ?s2 = "\<lparr>name = ''other'', path_prefix = Some ''models/'', encoding_vocab_size = 257,
        original_tokens = [97, 97, 97, 97], encoded_tokens = [256, 256], mint_token = 257,
        tcounts = [((256, 256), \<lparr>first_token = 256, second_token = 256, frequency = 1\<rparr>)],
        decoding_map = [256 \<mapsto> \<lparr>first_token = 97, second_token = 97, frequency = 3\<rparr>],
        encoding_map = [(97, 97) \<mapsto> 256]\<rparr>"
  have t1: "train (Tokenizer_init [97, 97, 97, 97] 257 ''tinyshakespeare'' None) = Inr ?s1"
    by (rule train_aaaa_257)
  have t2: "train (Tokenizer_init [97, 97, 97, 97] 257 ''other'' (Some ''models/'')) = Inr ?s2"
    by (rule train_aaaa_257)
  note a1 = training_deterministic [THEN conjunct2, THEN mp, OF t1]
  note a2 = training_deterministic [THEN conjunct2, THEN mp, OF t2]
  note e = training_deterministic [THEN conjunct1, THEN mp, OF conjI [OF a1 a2]]
  have m: "encoding_map ?s1 = [(97, 97) \<mapsto> 256]" by simp
  show ?thesis
    by (rule exI [of _ ?s1], rule exI [of _ ?s2]) (intro conjI t1 t2 a1 a2 e m)
qed

end
